theory Spec2Isabelle
  imports Complex_Main
begin

section \<open>The reading tables of the migration\<close>

text \<open>
  The embedded source is
  \<^verbatim>\<open>supabase/migrations/20240320000000_create_reading_tables.sql\<close>: two tables
  (\<^verbatim>\<open>reading_progress\<close>, \<^verbatim>\<open>reading_sessions\<close>), their column constraints, the
  trigger function \<^verbatim>\<open>update_updated_at_column\<close> with its two \<^verbatim>\<open>BEFORE UPDATE\<close>
  triggers, and six row-level security policies.  The migration is declarative, so the
  model gives each declaration the meaning PostgreSQL gives it and makes the statements
  that run against the tables (\<^verbatim>\<open>INSERT\<close>, \<^verbatim>\<open>UPDATE\<close>, \<^verbatim>\<open>DELETE\<close>,
  \<^verbatim>\<open>SELECT\<close>) explicit functions on a database state.
\<close>

subsection \<open>Values, errors and callers\<close>

text \<open>
  A \<^verbatim>\<open>UUID\<close> is an opaque identifier of which only equality is used; a
  \<^verbatim>\<open>TIMESTAMP WITH TIME ZONE\<close> is a point on a discrete time line.  Every SQL column
  is nullable unless a constraint says otherwise, so a stored column value is an
  \<open>option\<close> and \<open>None\<close> is \<^verbatim>\<open>NULL\<close>.
\<close>

type_synonym uuid = nat
type_synonym timestamptz = int

text \<open>
  The error conditions a statement against these tables can raise, under their PostgreSQL
  condition names.  \<open>ValidationError\<close> is not raised by the database; it belongs to the
  service function \<open>reportProgress\<close> below.
\<close>

datatype error =
    not_null_violation
  | unique_violation
  | foreign_key_violation
  | insufficient_privilege
  | numeric_value_out_of_range
  | ValidationError

text \<open>SQLSTATE class 23, integrity constraint violation.\<close>

fun ConstraintViolation :: "error \<Rightarrow> bool" where
  "ConstraintViolation not_null_violation = True"
| "ConstraintViolation unique_violation = True"
| "ConstraintViolation foreign_key_violation = True"
| "ConstraintViolation _ = False"

text \<open>
  The migration says \<^verbatim>\<open>ENABLE ROW LEVEL SECURITY\<close>, not \<^verbatim>\<open>FORCE\<close>: the policies
  bind every role except the table owner and roles with \<^verbatim>\<open>BYPASSRLS\<close>.  A bound
  caller carries the value of \<^verbatim>\<open>auth.uid()\<close>, which is \<^verbatim>\<open>NULL\<close> for an
  unauthenticated request.
\<close>

datatype role = Bypass_RLS | Subject "uuid option"

datatype command = SELECT | INSERT | UPDATE | DELETE

subsection \<open>Rows\<close>

text \<open>
  Both tables start with \<^verbatim>\<open>id\<close>, \<^verbatim>\<open>user_id\<close>, \<^verbatim>\<open>book_id\<close> and end with
  \<^verbatim>\<open>created_at\<close>, \<^verbatim>\<open>updated_at\<close>; the trigger function and the policies are
  written once for both and read only these columns, so they are a common base record.
  (\<open>id\<close> is a HOL constant, hence \<open>id_col\<close>.)
\<close>

record tracked =
  id_col :: "uuid option"
  user_id :: "uuid option"
  book_id :: "uuid option"
  created_at :: "timestamptz option"
  updated_at :: "timestamptz option"

record reading_progress = tracked +
  current_page :: "int option"
  total_pages :: "int option"
  progress :: "rat option"
  last_read_at :: "timestamptz option"

record reading_sessions = tracked +
  start_time :: "timestamptz option"
  end_time :: "timestamptz option"
  pages_read :: "int option"
  duration :: "int option"

text \<open>
  The database: the identifiers present in \<^verbatim>\<open>auth.users\<close> and \<^verbatim>\<open>books\<close> (both
  tables are referenced but not declared by the migration; only their primary keys
  matter here) and the two tables, in insertion order.
\<close>

record db =
  users :: "uuid set"
  books :: "uuid set"
  tbl_reading_progress :: "reading_progress list"
  tbl_reading_sessions :: "reading_sessions list"

definition empty_db :: db where
  "empty_db = \<lparr>users = {}, books = {}, tbl_reading_progress = [], tbl_reading_sessions = []\<rparr>"

subsection \<open>Column types and defaults\<close>

text \<open>\<^verbatim>\<open>INTEGER\<close>: a value outside the 32-bit signed range is rejected, not wrapped.\<close>

definition int4_ok :: "int option \<Rightarrow> bool" where
  "int4_ok v = (case v of None \<Rightarrow> True | Some n \<Rightarrow> - 2147483648 \<le> n \<and> n \<le> 2147483647)"

text \<open>
  \<^verbatim>\<open>DECIMAL(5,2)\<close>: the value is rounded to two fractional digits, ties away from
  zero, and rejected when the rounded value needs more than three integer digits.
\<close>

definition round_half_away :: "rat \<Rightarrow> int" where
  "round_half_away q = (if 0 \<le> q then \<lfloor>q + 1 / 2\<rfloor> else - \<lfloor>- q + 1 / 2\<rfloor>)"

definition numeric_5_2 :: "rat option \<Rightarrow> error + rat option" where
  "numeric_5_2 v =
     (case v of
        None \<Rightarrow> Inr None
      | Some q \<Rightarrow>
          (let h = round_half_away (q * 100)
           in if \<bar>h\<bar> < 100000 then Inr (Some (of_int h / 100))
              else Inl numeric_value_out_of_range))"

text \<open>
  The row an \<^verbatim>\<open>INSERT\<close> starts from: every column at its \<^verbatim>\<open>DEFAULT\<close>, or
  \<^verbatim>\<open>NULL\<close> where the column declares none.  \<open>gen\<close> is the value drawn by
  \<^verbatim>\<open>gen_random_uuid()\<close> and \<open>now\<close> the value of \<^verbatim>\<open>NOW()\<close>.
\<close>

definition default_reading_progress :: "timestamptz \<Rightarrow> uuid \<Rightarrow> reading_progress" where
  "default_reading_progress now gen =
     \<lparr>id_col = Some gen, user_id = None, book_id = None,
      created_at = Some now, updated_at = Some now,
      current_page = Some 0, total_pages = None, progress = Some 0,
      last_read_at = Some now\<rparr>"

definition default_reading_sessions :: "timestamptz \<Rightarrow> uuid \<Rightarrow> reading_sessions" where
  "default_reading_sessions now gen =
     \<lparr>id_col = Some gen, user_id = None, book_id = None,
      created_at = Some now, updated_at = Some now,
      start_time = None, end_time = None, pages_read = Some 0, duration = Some 0\<rparr>"

text \<open>
  Assignment of values to columns of their declared types.  The coercion is written on
  the whole candidate row: on a column the statement does not assign it meets a value
  that was coerced when it was stored, which passes unchanged.
\<close>

definition coerce_reading_progress :: "reading_progress \<Rightarrow> error + reading_progress" where
  "coerce_reading_progress r =
     (if \<not> int4_ok (current_page r) \<or> \<not> int4_ok (total_pages r)
      then Inl numeric_value_out_of_range
      else case numeric_5_2 (progress r) of
             Inl e \<Rightarrow> Inl e
           | Inr p \<Rightarrow> Inr (r\<lparr>progress := p\<rparr>))"

definition coerce_reading_sessions :: "reading_sessions \<Rightarrow> error + reading_sessions" where
  "coerce_reading_sessions r =
     (if \<not> int4_ok (pages_read r) \<or> \<not> int4_ok (duration r)
      then Inl numeric_value_out_of_range
      else Inr r)"

subsection \<open>Constraints\<close>

text \<open>\<^verbatim>\<open>PRIMARY KEY\<close> implies \<^verbatim>\<open>NOT NULL\<close>; the other columns are as declared.\<close>

definition not_null_reading_progress :: "reading_progress \<Rightarrow> bool" where
  "not_null_reading_progress r =
     (id_col r \<noteq> None \<and> current_page r \<noteq> None \<and> total_pages r \<noteq> None \<and> progress r \<noteq> None)"

definition not_null_reading_sessions :: "reading_sessions \<Rightarrow> bool" where
  "not_null_reading_sessions r =
     (id_col r \<noteq> None \<and> start_time r \<noteq> None \<and> pages_read r \<noteq> None \<and> duration r \<noteq> None)"

text \<open>
  A unique index compares two rows: they clash when all indexed columns are non-null and
  equal.  \<^verbatim>\<open>NULL\<close> is distinct from \<^verbatim>\<open>NULL\<close>.
\<close>

definition same_id :: "('z tracked_scheme) \<Rightarrow> ('z tracked_scheme) \<Rightarrow> bool" where
  "same_id r s = (case (id_col r, id_col s) of (Some a, Some b) \<Rightarrow> a = b | _ \<Rightarrow> False)"

definition same_user_book :: "('z tracked_scheme) \<Rightarrow> ('z tracked_scheme) \<Rightarrow> bool" where
  "same_user_book r s =
     (case (user_id r, book_id r, user_id s, book_id s) of
        (Some u, Some b, Some u', Some b') \<Rightarrow> u = u' \<and> b = b'
      | _ \<Rightarrow> False)"

text \<open>\<^verbatim>\<open>reading_progress\<close>: \<^verbatim>\<open>PRIMARY KEY (id)\<close> and \<^verbatim>\<open>UNIQUE(user_id, book_id)\<close>.\<close>

definition conflict_reading_progress :: "reading_progress \<Rightarrow> reading_progress \<Rightarrow> bool" where
  "conflict_reading_progress r s = (same_id r s \<or> same_user_book r s)"

text \<open>\<^verbatim>\<open>reading_sessions\<close>: \<^verbatim>\<open>PRIMARY KEY (id)\<close> only.\<close>

definition conflict_reading_sessions :: "reading_sessions \<Rightarrow> reading_sessions \<Rightarrow> bool" where
  "conflict_reading_sessions r s = same_id r s"

text \<open>
  \<^verbatim>\<open>REFERENCES auth.users(id)\<close> and \<^verbatim>\<open>REFERENCES books(id)\<close>: a non-null reference
  must name an existing row; a null one references nothing.
\<close>

definition fk_ok :: "uuid set \<Rightarrow> uuid set \<Rightarrow> ('z tracked_scheme) \<Rightarrow> bool" where
  "fk_ok us bs r =
     ((case user_id r of None \<Rightarrow> True | Some u \<Rightarrow> u \<in> us) \<and>
      (case book_id r of None \<Rightarrow> True | Some b \<Rightarrow> b \<in> bs))"

subsection \<open>The trigger function\<close>

text \<open>
  \<^verbatim>\<open>
  CREATE OR REPLACE FUNCTION update_updated_at_column() RETURNS TRIGGER AS $$
  BEGIN
    NEW.updated_at = NOW();
    RETURN NEW;
  END;
  \<close>
  Fired \<^verbatim>\<open>BEFORE UPDATE ... FOR EACH ROW\<close> on both tables: the row it returns is the
  row that is stored.
\<close>

definition update_updated_at_column :: "timestamptz \<Rightarrow> ('z tracked_scheme) \<Rightarrow> ('z tracked_scheme)" where
  "update_updated_at_column now NEW = NEW\<lparr>updated_at := Some now\<rparr>"

subsection \<open>Row-level security\<close>

text \<open>
  SQL equality is three-valued: it is \<^verbatim>\<open>NULL\<close> as soon as one side is.  A policy
  admits a row only when its expression is true.
\<close>

definition sql_eq :: "'a option \<Rightarrow> 'a option \<Rightarrow> bool option" where
  "sql_eq a b = (case (a, b) of (Some x, Some y) \<Rightarrow> Some (x = y) | _ \<Rightarrow> None)"

text \<open>
  The policies of the migration, the same three on each table:
  \<^verbatim>\<open>FOR SELECT USING (auth.uid() = user_id)\<close>,
  \<^verbatim>\<open>FOR UPDATE USING (auth.uid() = user_id)\<close>,
  \<^verbatim>\<open>FOR INSERT WITH CHECK (auth.uid() = user_id)\<close>.
  There is no policy \<^verbatim>\<open>FOR DELETE\<close>; with row-level security enabled a command
  without a policy is denied on every row.
\<close>

fun policy :: "command \<Rightarrow> uuid option \<Rightarrow> ('z tracked_scheme) \<Rightarrow> bool option" where
  "policy SELECT uid r = sql_eq uid (user_id r)"
| "policy UPDATE uid r = sql_eq uid (user_id r)"
| "policy INSERT uid r = sql_eq uid (user_id r)"
| "policy DELETE uid r = Some False"

fun permits :: "role \<Rightarrow> command \<Rightarrow> ('z tracked_scheme) \<Rightarrow> bool" where
  "permits Bypass_RLS c r = True"
| "permits (Subject uid) c r = (policy c uid r = Some True)"

subsection \<open>Statements\<close>

text \<open>
  The checks a new row version passes before it is stored, in PostgreSQL's order: the
  policy's check on the new row (\<^verbatim>\<open>WITH CHECK\<close>; an \<^verbatim>\<open>UPDATE\<close> policy that gives
  only \<^verbatim>\<open>USING\<close> has that expression applied to the new row as well), then
  \<^verbatim>\<open>NOT NULL\<close>, then the unique indexes against the other rows of the table.  A row
  that fails raises an error; it is never skipped.
\<close>

definition store_checks ::
  "role \<Rightarrow> command \<Rightarrow> ('z tracked_scheme \<Rightarrow> bool) \<Rightarrow>
   ('z tracked_scheme \<Rightarrow> 'z tracked_scheme \<Rightarrow> bool) \<Rightarrow>
   'z tracked_scheme list \<Rightarrow> 'z tracked_scheme \<Rightarrow> error + 'z tracked_scheme" where
  "store_checks rl c not_null conflict others r =
     (if \<not> permits rl c r then Inl insufficient_privilege
      else if \<not> not_null r then Inl not_null_violation
      else if list_ex (conflict r) others then Inl unique_violation
      else Inr r)"

text \<open>
  \<^verbatim>\<open>INSERT\<close>.  The statement's column list and values are a function \<open>vals\<close> applied
  to the row of defaults: a column the statement omits keeps its default, a column it
  names gets the value given (possibly \<^verbatim>\<open>NULL\<close>).  The values are coerced to the column
  types, the row passes \<open>store_checks\<close>, and the foreign keys are checked when the
  statement ends.  A statement that fails leaves the database as it was.
\<close>

definition insert_rows ::
  "role \<Rightarrow> ('z tracked_scheme \<Rightarrow> error + 'z tracked_scheme) \<Rightarrow> ('z tracked_scheme \<Rightarrow> bool) \<Rightarrow>
   ('z tracked_scheme \<Rightarrow> 'z tracked_scheme \<Rightarrow> bool) \<Rightarrow> uuid set \<Rightarrow> uuid set \<Rightarrow>
   'z tracked_scheme \<Rightarrow> 'z tracked_scheme list \<Rightarrow> error + 'z tracked_scheme list" where
  "insert_rows rl coerce not_null conflict us bs candidate rows =
     (case coerce candidate of
        Inl e \<Rightarrow> Inl e
      | Inr r \<Rightarrow>
          (case store_checks rl INSERT not_null conflict rows r of
             Inl e \<Rightarrow> Inl e
           | Inr r' \<Rightarrow>
               if fk_ok us bs r' then Inr (rows @ [r']) else Inl foreign_key_violation))"

definition insert_reading_progress ::
  "role \<Rightarrow> timestamptz \<Rightarrow> uuid \<Rightarrow> (reading_progress \<Rightarrow> reading_progress) \<Rightarrow> db \<Rightarrow> error + db" where
  "insert_reading_progress rl now gen vals d =
     (case insert_rows rl coerce_reading_progress not_null_reading_progress
             conflict_reading_progress (users d) (books d)
             (vals (default_reading_progress now gen)) (tbl_reading_progress d) of
        Inl e \<Rightarrow> Inl e
      | Inr rows \<Rightarrow> Inr (d\<lparr>tbl_reading_progress := rows\<rparr>))"

definition insert_reading_sessions ::
  "role \<Rightarrow> timestamptz \<Rightarrow> uuid \<Rightarrow> (reading_sessions \<Rightarrow> reading_sessions) \<Rightarrow> db \<Rightarrow> error + db" where
  "insert_reading_sessions rl now gen vals d =
     (case insert_rows rl coerce_reading_sessions not_null_reading_sessions
             conflict_reading_sessions (users d) (books d)
             (vals (default_reading_sessions now gen)) (tbl_reading_sessions d) of
        Inl e \<Rightarrow> Inl e
      | Inr rows \<Rightarrow> Inr (d\<lparr>tbl_reading_sessions := rows\<rparr>))"

text \<open>
  \<^verbatim>\<open>UPDATE ... SET ... WHERE ...\<close>.  The rows the statement works on are those its
  \<^verbatim>\<open>WHERE\<close> clause selects among the rows the \<^verbatim>\<open>SELECT\<close> and \<^verbatim>\<open>UPDATE\<close>
  policies let the caller see; the others are passed over silently.  For each such row
  the \<^verbatim>\<open>SET\<close> clause (a function of the old row) gives the new values, they are
  coerced, the \<^verbatim>\<open>BEFORE UPDATE\<close> trigger runs, and the result passes \<open>store_checks\<close>
  against the table as it stands at that moment.
\<close>

definition new_version ::
  "role \<Rightarrow> timestamptz \<Rightarrow> ('z tracked_scheme \<Rightarrow> error + 'z tracked_scheme) \<Rightarrow>
   ('z tracked_scheme \<Rightarrow> bool) \<Rightarrow> ('z tracked_scheme \<Rightarrow> 'z tracked_scheme) \<Rightarrow>
   'z tracked_scheme \<Rightarrow> error + 'z tracked_scheme option" where
  "new_version rl now coerce wh st r =
     (if wh r \<and> permits rl SELECT r \<and> permits rl UPDATE r
      then case coerce (st r) of
             Inl e \<Rightarrow> Inl e
           | Inr v \<Rightarrow> Inr (Some (update_updated_at_column now v))
      else Inr None)"

fun update_rows ::
  "('r \<Rightarrow> error + 'r option) \<Rightarrow> ('r list \<Rightarrow> 'r \<Rightarrow> error + 'r) \<Rightarrow>
   'r list \<Rightarrow> 'r list \<Rightarrow> 'r list \<Rightarrow> error + ('r list \<times> 'r list)" where
  "update_rows nv chk done new [] = Inr (done, new)"
| "update_rows nv chk done new (r # todo) =
     (case nv r of
        Inl e \<Rightarrow> Inl e
      | Inr None \<Rightarrow> update_rows nv chk (done @ [r]) new todo
      | Inr (Some v) \<Rightarrow>
          (case chk (done @ todo) v of
             Inl e \<Rightarrow> Inl e
           | Inr v' \<Rightarrow> update_rows nv chk (done @ [v']) (new @ [v']) todo))"

text \<open>The foreign keys of the new row versions are checked when the statement ends.\<close>

definition update_table ::
  "role \<Rightarrow> timestamptz \<Rightarrow> ('z tracked_scheme \<Rightarrow> error + 'z tracked_scheme) \<Rightarrow>
   ('z tracked_scheme \<Rightarrow> bool) \<Rightarrow> ('z tracked_scheme \<Rightarrow> 'z tracked_scheme \<Rightarrow> bool) \<Rightarrow>
   uuid set \<Rightarrow> uuid set \<Rightarrow> ('z tracked_scheme \<Rightarrow> bool) \<Rightarrow>
   ('z tracked_scheme \<Rightarrow> 'z tracked_scheme) \<Rightarrow> 'z tracked_scheme list \<Rightarrow>
   error + 'z tracked_scheme list" where
  "update_table rl now coerce not_null conflict us bs wh st rows =
     (case update_rows (new_version rl now coerce wh st)
             (store_checks rl UPDATE not_null conflict) [] [] rows of
        Inl e \<Rightarrow> Inl e
      | Inr (rows', new) \<Rightarrow>
          if list_all (fk_ok us bs) new then Inr rows' else Inl foreign_key_violation)"

definition update_reading_progress ::
  "role \<Rightarrow> timestamptz \<Rightarrow> (reading_progress \<Rightarrow> bool) \<Rightarrow>
   (reading_progress \<Rightarrow> reading_progress) \<Rightarrow> db \<Rightarrow> error + db" where
  "update_reading_progress rl now wh st d =
     (case update_table rl now coerce_reading_progress not_null_reading_progress
             conflict_reading_progress (users d) (books d) wh st (tbl_reading_progress d) of
        Inl e \<Rightarrow> Inl e
      | Inr rows \<Rightarrow> Inr (d\<lparr>tbl_reading_progress := rows\<rparr>))"

definition update_reading_sessions ::
  "role \<Rightarrow> timestamptz \<Rightarrow> (reading_sessions \<Rightarrow> bool) \<Rightarrow>
   (reading_sessions \<Rightarrow> reading_sessions) \<Rightarrow> db \<Rightarrow> error + db" where
  "update_reading_sessions rl now wh st d =
     (case update_table rl now coerce_reading_sessions not_null_reading_sessions
             conflict_reading_sessions (users d) (books d) wh st (tbl_reading_sessions d) of
        Inl e \<Rightarrow> Inl e
      | Inr rows \<Rightarrow> Inr (d\<lparr>tbl_reading_sessions := rows\<rparr>))"

text \<open>
  \<^verbatim>\<open>SELECT ... WHERE ...\<close> and \<^verbatim>\<open>DELETE ... WHERE ...\<close>: a policy's \<^verbatim>\<open>USING\<close>
  expression filters the rows the statement sees.  Neither statement raises an error on
  a row the policy hides.
\<close>

definition select_rows ::
  "role \<Rightarrow> ('z tracked_scheme \<Rightarrow> bool) \<Rightarrow> 'z tracked_scheme list \<Rightarrow> error + 'z tracked_scheme list" where
  "select_rows rl wh rows = Inr (filter (\<lambda>r. permits rl SELECT r \<and> wh r) rows)"

definition delete_rows ::
  "role \<Rightarrow> ('z tracked_scheme \<Rightarrow> bool) \<Rightarrow> 'z tracked_scheme list \<Rightarrow> 'z tracked_scheme list" where
  "delete_rows rl wh rows =
     filter (\<lambda>r. \<not> (wh r \<and> permits rl SELECT r \<and> permits rl DELETE r)) rows"

definition select_reading_progress ::
  "role \<Rightarrow> (reading_progress \<Rightarrow> bool) \<Rightarrow> db \<Rightarrow> error + reading_progress list" where
  "select_reading_progress rl wh d = select_rows rl wh (tbl_reading_progress d)"

definition select_reading_sessions ::
  "role \<Rightarrow> (reading_sessions \<Rightarrow> bool) \<Rightarrow> db \<Rightarrow> error + reading_sessions list" where
  "select_reading_sessions rl wh d = select_rows rl wh (tbl_reading_sessions d)"

definition delete_reading_progress :: "role \<Rightarrow> (reading_progress \<Rightarrow> bool) \<Rightarrow> db \<Rightarrow> error + db" where
  "delete_reading_progress rl wh d =
     Inr (d\<lparr>tbl_reading_progress := delete_rows rl wh (tbl_reading_progress d)\<rparr>)"

definition delete_reading_sessions :: "role \<Rightarrow> (reading_sessions \<Rightarrow> bool) \<Rightarrow> db \<Rightarrow> error + db" where
  "delete_reading_sessions rl wh d =
     Inr (d\<lparr>tbl_reading_sessions := delete_rows rl wh (tbl_reading_sessions d)\<rparr>)"

text \<open>
  The referenced tables.  Creating a user or a book adds its identifier (a primary key,
  so a second row with the same identifier is refused).  Deleting one fires
  \<^verbatim>\<open>ON DELETE CASCADE\<close> on both reading tables; the cascade is a referential action and
  is not subject to the policies.  What else references \<^verbatim>\<open>auth.users\<close> or
  \<^verbatim>\<open>books\<close> is outside the migration, so the delete itself always goes through.
\<close>

definition insert_user :: "uuid \<Rightarrow> db \<Rightarrow> error + db" where
  "insert_user u d = (if u \<in> users d then Inl unique_violation else Inr (d\<lparr>users := insert u (users d)\<rparr>))"

definition insert_book :: "uuid \<Rightarrow> db \<Rightarrow> error + db" where
  "insert_book b d = (if b \<in> books d then Inl unique_violation else Inr (d\<lparr>books := insert b (books d)\<rparr>))"

definition delete_user :: "uuid \<Rightarrow> db \<Rightarrow> error + db" where
  "delete_user u d =
     Inr (d\<lparr>users := users d - {u},
            tbl_reading_progress := filter (\<lambda>r. user_id r \<noteq> Some u) (tbl_reading_progress d),
            tbl_reading_sessions := filter (\<lambda>r. user_id r \<noteq> Some u) (tbl_reading_sessions d)\<rparr>)"

definition delete_book :: "uuid \<Rightarrow> db \<Rightarrow> error + db" where
  "delete_book b d =
     Inr (d\<lparr>books := books d - {b},
            tbl_reading_progress := filter (\<lambda>r. book_id r \<noteq> Some b) (tbl_reading_progress d),
            tbl_reading_sessions := filter (\<lambda>r. book_id r \<noteq> Some b) (tbl_reading_sessions d)\<rparr>)"

subsection \<open>Reachable states\<close>

text \<open>
  A history is a list of statements run from the empty database.  A statement that
  raises an error is rolled back: the state after it is the state before it.
\<close>

datatype stmt =
    Insert_user uuid
  | Insert_book uuid
  | Delete_user uuid
  | Delete_book uuid
  | Insert_progress role timestamptz uuid "reading_progress \<Rightarrow> reading_progress"
  | Update_progress role timestamptz "reading_progress \<Rightarrow> bool" "reading_progress \<Rightarrow> reading_progress"
  | Delete_progress role "reading_progress \<Rightarrow> bool"
  | Insert_session role timestamptz uuid "reading_sessions \<Rightarrow> reading_sessions"
  | Update_session role timestamptz "reading_sessions \<Rightarrow> bool" "reading_sessions \<Rightarrow> reading_sessions"
  | Delete_session role "reading_sessions \<Rightarrow> bool"

fun exec_stmt :: "stmt \<Rightarrow> db \<Rightarrow> error + db" where
  "exec_stmt (Insert_user u) d = insert_user u d"
| "exec_stmt (Insert_book b) d = insert_book b d"
| "exec_stmt (Delete_user u) d = delete_user u d"
| "exec_stmt (Delete_book b) d = delete_book b d"
| "exec_stmt (Insert_progress rl now gen vals) d = insert_reading_progress rl now gen vals d"
| "exec_stmt (Update_progress rl now wh st) d = update_reading_progress rl now wh st d"
| "exec_stmt (Delete_progress rl wh) d = delete_reading_progress rl wh d"
| "exec_stmt (Insert_session rl now gen vals) d = insert_reading_sessions rl now gen vals d"
| "exec_stmt (Update_session rl now wh st) d = update_reading_sessions rl now wh st d"
| "exec_stmt (Delete_session rl wh) d = delete_reading_sessions rl wh d"

definition step :: "db \<Rightarrow> stmt \<Rightarrow> db" where
  "step d s = (case exec_stmt s d of Inl e \<Rightarrow> d | Inr d' \<Rightarrow> d')"

definition run :: "stmt list \<Rightarrow> db \<Rightarrow> db" where
  "run ss d = foldl step d ss"

subsection \<open>\<^verbatim>\<open>WHERE\<close> clauses\<close>

text \<open>
  \<^verbatim>\<open>WHERE user_id = u\<close> and \<^verbatim>\<open>WHERE user_id = u AND book_id = b\<close>.  A comparison
  with \<^verbatim>\<open>NULL\<close> is not true, so a row with a null reference is not selected.
\<close>

definition owned_by :: "uuid \<Rightarrow> ('z tracked_scheme) \<Rightarrow> bool" where
  "owned_by u r = (sql_eq (user_id r) (Some u) = Some True)"

definition for_pair :: "uuid \<Rightarrow> uuid \<Rightarrow> ('z tracked_scheme) \<Rightarrow> bool" where
  "for_pair u b r = (sql_eq (user_id r) (Some u) = Some True \<and> sql_eq (book_id r) (Some b) = Some True)"

text \<open>A statement without a \<^verbatim>\<open>WHERE\<close> clause, and \<^verbatim>\<open>WHERE book_id = b\<close>.\<close>

definition all_rows :: "('z tracked_scheme) \<Rightarrow> bool" where
  "all_rows r = True"

definition for_book :: "uuid \<Rightarrow> ('z tracked_scheme) \<Rightarrow> bool" where
  "for_book b r = (sql_eq (book_id r) (Some b) = Some True)"

subsection \<open>Progress reconciliation\<close>

text \<open>
  Modelled from the spec: \<open>reportProgress\<close> is not part of the migration or of any other
  source file; it is the service function of the specification's section 4.3, taken
  from its words and run against the tables above.  Step 1 clamps \<open>current_page\<close> to
  \<open>[0, total_pages]\<close> and computes
  \<open>progress = round(current_page / total_pages * 100, 2)\<close> clamped to \<open>[0, 100]\<close>; a
  \<open>total_pages\<close> that is 0 or missing gives \<open>progress = 0\<close>, and a \<open>ValidationError\<close>
  in strict mode; a negative \<open>total_pages\<close> is malformed input (section 7).  Step 2
  looks for the row of the pair: if there is one it updates \<open>current_page\<close>,
  \<open>total_pages\<close>, \<open>progress\<close> and \<open>last_read_at = now\<close>, otherwise it inserts a row
  (\<open>created_at\<close> and \<open>last_read_at\<close> are \<open>now\<close> by default).
\<close>

definition clamp :: "int \<Rightarrow> int \<Rightarrow> int \<Rightarrow> int" where
  "clamp x lo hi = max lo (min hi x)"

definition round2 :: "rat \<Rightarrow> rat" where
  "round2 q = of_int (round_half_away (q * 100)) / 100"

definition percent :: "int \<Rightarrow> int \<Rightarrow> rat" where
  "percent cp tp = max 0 (min 100 (round2 (of_int cp / of_int tp * 100)))"

definition report_insert ::
  "uuid \<Rightarrow> uuid \<Rightarrow> int \<Rightarrow> int option \<Rightarrow> rat \<Rightarrow> reading_progress \<Rightarrow> reading_progress" where
  "report_insert u b cp tp p r =
     r\<lparr>user_id := Some u, book_id := Some b, current_page := Some cp, total_pages := tp,
       progress := Some p\<rparr>"

definition report_update ::
  "int \<Rightarrow> int option \<Rightarrow> rat \<Rightarrow> timestamptz \<Rightarrow> reading_progress \<Rightarrow> reading_progress" where
  "report_update cp tp p now r =
     r\<lparr>current_page := Some cp, total_pages := tp, progress := Some p, last_read_at := Some now\<rparr>"

definition reportProgress ::
  "role \<Rightarrow> bool \<Rightarrow> timestamptz \<Rightarrow> uuid \<Rightarrow> uuid \<Rightarrow> uuid \<Rightarrow> int \<Rightarrow> int option \<Rightarrow> db \<Rightarrow> error + db" where
  "reportProgress rl strict now gen u b page pages d =
     (let missing = (case pages of None \<Rightarrow> True | Some t \<Rightarrow> t = 0);
          t = (case pages of None \<Rightarrow> 0 | Some t \<Rightarrow> t)
      in if t < 0 \<or> (missing \<and> strict) then Inl ValidationError
         else
           let cp = clamp page 0 t;
               p = (if missing then 0 else percent cp t)
           in case select_reading_progress rl (for_pair u b) d of
                Inl e \<Rightarrow> Inl e
              | Inr [] \<Rightarrow> insert_reading_progress rl now gen (report_insert u b cp pages p) d
              | Inr (x # xs) \<Rightarrow>
                  update_reading_progress rl now (for_pair u b) (report_update cp pages p now) d)"

text \<open>A sequence of reports; a report that fails changes nothing.\<close>

datatype report = Report role bool timestamptz uuid uuid uuid int "int option"

fun report_step :: "db \<Rightarrow> report \<Rightarrow> db" where
  "report_step d (Report rl strict now gen u b page pages) =
     (case reportProgress rl strict now gen u b page pages d of Inl e \<Rightarrow> d | Inr d' \<Rightarrow> d')"

definition reports :: "report list \<Rightarrow> db \<Rightarrow> db" where
  "reports rs d = foldl report_step d rs"

subsection \<open>Auxiliary notions for the proofs\<close>

text \<open>The row an \<^verbatim>\<open>UPDATE\<close> leaves in the place of \<open>r\<close>.\<close>

definition stored_version :: "('r \<Rightarrow> error + 'r option) \<Rightarrow> 'r \<Rightarrow> 'r" where
  "stored_version nv r = (case nv r of Inr (Some v) \<Rightarrow> v | _ \<Rightarrow> r)"

text \<open>No two rows of a table clash on a unique index.\<close>

definition unique_index :: "('r \<Rightarrow> 'r \<Rightarrow> bool) \<Rightarrow> 'r list \<Rightarrow> bool" where
  "unique_index conflict rows = sorted_wrt (\<lambda>a b. \<not> conflict a b) rows"

definition cols_reading_progress :: "reading_progress \<Rightarrow> bool" where
  "cols_reading_progress r =
     (not_null_reading_progress r \<and> int4_ok (current_page r) \<and> int4_ok (total_pages r))"

definition cols_reading_sessions :: "reading_sessions \<Rightarrow> bool" where
  "cols_reading_sessions r =
     (not_null_reading_sessions r \<and> int4_ok (pages_read r) \<and> int4_ok (duration r))"

definition inv_unique :: "db \<Rightarrow> bool" where
  "inv_unique d = unique_index conflict_reading_progress (tbl_reading_progress d)"

definition inv_fk :: "db \<Rightarrow> bool" where
  "inv_fk d =
     (list_all (fk_ok (users d) (books d)) (tbl_reading_progress d) \<and>
      list_all (fk_ok (users d) (books d)) (tbl_reading_sessions d))"

definition inv_cols :: "db \<Rightarrow> bool" where
  "inv_cols d =
     (list_all cols_reading_progress (tbl_reading_progress d) \<and>
      list_all cols_reading_sessions (tbl_reading_sessions d))"

subsection \<open>Column lists\<close>

text \<open>
  The column lists used below, as functions on the row of defaults (for an
  \<^verbatim>\<open>INSERT\<close>) or on the old row (for an \<^verbatim>\<open>UPDATE ... SET\<close>).
  \<open>progress_cols\<close> is \<^verbatim>\<open>(user_id, book_id, total_pages)\<close>, \<open>progress_cols_page\<close>
  adds \<^verbatim>\<open>current_page\<close>, \<open>progress_cols_no_total\<close> is \<^verbatim>\<open>(user_id, book_id)\<close>;
  \<open>session_cols\<close> is \<^verbatim>\<open>(user_id, book_id, start_time)\<close> and \<open>session_cols_counts\<close>
  adds \<^verbatim>\<open>pages_read\<close> and \<^verbatim>\<open>duration\<close>.
\<close>

definition progress_cols ::
  "uuid option \<Rightarrow> uuid option \<Rightarrow> int option \<Rightarrow> reading_progress \<Rightarrow> reading_progress" where
  "progress_cols u b tp r = r\<lparr>user_id := u, book_id := b, total_pages := tp\<rparr>"

definition progress_cols_page ::
  "uuid option \<Rightarrow> uuid option \<Rightarrow> int option \<Rightarrow> int option \<Rightarrow> reading_progress \<Rightarrow> reading_progress" where
  "progress_cols_page u b cp tp r = r\<lparr>user_id := u, book_id := b, current_page := cp, total_pages := tp\<rparr>"

definition progress_cols_no_total ::
  "uuid option \<Rightarrow> uuid option \<Rightarrow> reading_progress \<Rightarrow> reading_progress" where
  "progress_cols_no_total u b r = r\<lparr>user_id := u, book_id := b\<rparr>"

definition session_cols ::
  "uuid option \<Rightarrow> uuid option \<Rightarrow> timestamptz option \<Rightarrow> reading_sessions \<Rightarrow> reading_sessions" where
  "session_cols u b t r = r\<lparr>user_id := u, book_id := b, start_time := t\<rparr>"

definition session_cols_counts ::
  "uuid option \<Rightarrow> uuid option \<Rightarrow> timestamptz option \<Rightarrow> int option \<Rightarrow> int option \<Rightarrow>
   reading_sessions \<Rightarrow> reading_sessions" where
  "session_cols_counts u b t n s r =
     r\<lparr>user_id := u, book_id := b, start_time := t, pages_read := n, duration := s\<rparr>"

text \<open>\<^verbatim>\<open>SET\<close> clauses that assign one column.\<close>

definition set_created_at :: "timestamptz option \<Rightarrow> ('z tracked_scheme) \<Rightarrow> ('z tracked_scheme)" where
  "set_created_at t r = r\<lparr>created_at := t\<rparr>"

definition set_updated_at :: "timestamptz option \<Rightarrow> ('z tracked_scheme) \<Rightarrow> ('z tracked_scheme)" where
  "set_updated_at t r = r\<lparr>updated_at := t\<rparr>"

definition set_user_id :: "uuid option \<Rightarrow> ('z tracked_scheme) \<Rightarrow> ('z tracked_scheme)" where
  "set_user_id u r = r\<lparr>user_id := u\<rparr>"

definition set_book_id :: "uuid option \<Rightarrow> ('z tracked_scheme) \<Rightarrow> ('z tracked_scheme)" where
  "set_book_id b r = r\<lparr>book_id := b\<rparr>"

subsection \<open>Example histories\<close>

text \<open>Two users (1 and 2) and one book, then user 1 reports page 50 of 200.\<close>

definition two_readers :: "stmt list" where
  "two_readers = [Insert_user 1, Insert_user 2, Insert_book 1]"

definition first_report :: report where
  "first_report = Report (Subject (Some 1)) False 5 10 1 1 50 (Some 200)"

definition reported :: db where
  "reported =
     \<lparr>users = {2, 1}, books = {1},
      tbl_reading_progress =
        [\<lparr>id_col = Some 10, user_id = Some 1, book_id = Some 1,
          created_at = Some 5, updated_at = Some 5,
          current_page = Some 50, total_pages = Some 200, progress = Some 25,
          last_read_at = Some 5\<rparr>],
      tbl_reading_sessions = []\<rparr>"

definition reported_again :: db where
  "reported_again =
     \<lparr>users = {2, 1}, books = {1},
      tbl_reading_progress =
        [\<lparr>id_col = Some 10, user_id = Some 1, book_id = Some 1,
          created_at = Some 5, updated_at = Some 7,
          current_page = Some 60, total_pages = Some 200, progress = Some 30,
          last_read_at = Some 7\<rparr>],
      tbl_reading_sessions = []\<rparr>"

text \<open>
  The same two users and book; user 1 has a progress row and an open session for the
  book, user 2 a session.
\<close>

definition reading_history :: "stmt list" where
  "reading_history =
     [Insert_user 1, Insert_user 2, Insert_book 1,
      Insert_progress (Subject (Some 1)) 5 10 (progress_cols (Some 1) (Some 1) (Some 200)),
      Insert_session (Subject (Some 1)) 6 20 (session_cols (Some 1) (Some 1) (Some 6)),
      Insert_session (Subject (Some 2)) 7 21 (session_cols (Some 2) (Some 1) (Some 7))]"

definition library :: db where
  "library =
     \<lparr>users = {2, 1}, books = {1},
      tbl_reading_progress =
        [\<lparr>id_col = Some 10, user_id = Some 1, book_id = Some 1,
          created_at = Some 5, updated_at = Some 5,
          current_page = Some 0, total_pages = Some 200, progress = Some 0,
          last_read_at = Some 5\<rparr>],
      tbl_reading_sessions =
        [\<lparr>id_col = Some 20, user_id = Some 1, book_id = Some 1,
          created_at = Some 6, updated_at = Some 6,
          start_time = Some 6, end_time = None, pages_read = Some 0, duration = Some 0\<rparr>,
         \<lparr>id_col = Some 21, user_id = Some 2, book_id = Some 1,
          created_at = Some 7, updated_at = Some 7,
          start_time = Some 7, end_time = None, pages_read = Some 0, duration = Some 0\<rparr>]\<rparr>"

definition library_without_user_1 :: db where
  "library_without_user_1 =
     \<lparr>users = {2}, books = {1},
      tbl_reading_progress = [],
      tbl_reading_sessions =
        [\<lparr>id_col = Some 21, user_id = Some 2, book_id = Some 1,
          created_at = Some 7, updated_at = Some 7,
          start_time = Some 7, end_time = None, pages_read = Some 0, duration = Some 0\<rparr>]\<rparr>"

text \<open>A history that stores negative counts.\<close>

definition negative_history :: "stmt list" where
  "negative_history =
     [Insert_user 1, Insert_book 1,
      Insert_progress (Subject (Some 1)) 5 10
        (progress_cols_page (Some 1) (Some 1) (Some (- 5)) (Some (- 1))),
      Insert_session (Subject (Some 1)) 6 20
        (session_cols_counts (Some 1) (Some 1) (Some 6) (Some (- 3)) (Some (- 60)))]"

text \<open>
  A history in which one user starts \<open>n\<close> sessions on one book and closes none: the
  \<open>i\<close>-th session is inserted at time \<open>i\<close> with identifier \<open>i\<close>.
\<close>

definition open_session :: "uuid \<Rightarrow> uuid \<Rightarrow> nat \<Rightarrow> stmt" where
  "open_session u b i =
     Insert_session (Subject (Some u)) (int i) i (session_cols (Some u) (Some b) (Some (int i)))"

definition open_sessions :: "uuid \<Rightarrow> uuid \<Rightarrow> nat \<Rightarrow> stmt list" where
  "open_sessions u b n = [Insert_user u, Insert_book b] @ map (open_session u b) [0..<n]"

definition open_row :: "uuid \<Rightarrow> uuid \<Rightarrow> nat \<Rightarrow> reading_sessions" where
  "open_row u b i =
     \<lparr>id_col = Some i, user_id = Some u, book_id = Some b,
      created_at = Some (int i), updated_at = Some (int i),
      start_time = Some (int i), end_time = None, pages_read = Some 0, duration = Some 0\<rparr>"

text \<open>
  A history run by a role that bypasses row-level security: two progress rows with a
  null user for the same book, and a session with neither user nor book.
\<close>

definition null_user_history :: "stmt list" where
  "null_user_history =
     [Insert_book 1,
      Insert_progress Bypass_RLS 5 10 (progress_cols None (Some 1) (Some 100)),
      Insert_progress Bypass_RLS 6 11 (progress_cols None (Some 1) (Some 100)),
      Insert_session Bypass_RLS 7 20 (session_cols None None (Some 7))]"

section \<open>Properties\<close>

subsection \<open>What a successful statement did\<close>

lemma store_checks_Inr:
  "store_checks rl c nn cf others r = Inr r' \<Longrightarrow>
   r' = r \<and> permits rl c r \<and> nn r \<and> \<not> list_ex (cf r) others"
  by (simp add: store_checks_def split: if_splits)

lemma update_rows_result:
  assumes chk: "\<And>others v v'. chk others v = Inr v' \<Longrightarrow> v' = v"
  shows "update_rows nv chk done new todo = Inr (rows', news) \<Longrightarrow>
         rows' = done @ map (stored_version nv) todo \<and>
         news = new @ List.map_filter (\<lambda>r. case nv r of Inr x \<Rightarrow> x | Inl e \<Rightarrow> None) todo"
proof (induction todo arbitrary: "done" new)
  case Nil
  then show ?case by simp
next
  case (Cons r todo)
  show ?case
  proof (cases "nv r")
    case (Inl e)
    with Cons.prems show ?thesis by simp
  next
    case (Inr x)
    show ?thesis
    proof (cases x)
      case None
      with Inr Cons.prems have "update_rows nv chk (done @ [r]) new todo = Inr (rows', news)"
        by simp
      from Cons.IH [OF this] Inr None show ?thesis
        by (simp add: stored_version_def)
    next
      case (Some v)
      with Inr Cons.prems obtain v' where c: "chk (done @ todo) v = Inr v'"
        and u: "update_rows nv chk (done @ [v']) (new @ [v']) todo = Inr (rows', news)"
        by (auto split: sum.splits)
      from chk [OF c] have "v' = v" .
      with Cons.IH [OF u] Inr Some show ?thesis
        by (simp add: stored_version_def)
    qed
  qed
qed

lemma update_rows_checked:
  "update_rows nv chk done new todo = Inr (rows', news) \<Longrightarrow> r \<in> set todo \<Longrightarrow>
   (\<exists>x. nv r = Inr x) \<and> (\<forall>v. nv r = Inr (Some v) \<longrightarrow> (\<exists>others v'. chk others v = Inr v'))"
proof (induction todo arbitrary: "done" new)
  case Nil
  then show ?case by simp
next
  case (Cons a todo)
  show ?case
  proof (cases "nv a")
    case (Inl e)
    with Cons.prems show ?thesis by simp
  next
    case (Inr x)
    show ?thesis
    proof (cases x)
      case None
      with Inr Cons.prems have u: "update_rows nv chk (done @ [a]) new todo = Inr (rows', news)"
        by simp
      show ?thesis
      proof (cases "r = a")
        case True
        with Inr None show ?thesis by simp
      next
        case False
        with Cons.prems have "r \<in> set todo" by simp
        from Cons.IH [OF u this] show ?thesis .
      qed
    next
      case (Some v)
      with Inr Cons.prems obtain v' where c: "chk (done @ todo) v = Inr v'"
        and u: "update_rows nv chk (done @ [v']) (new @ [v']) todo = Inr (rows', news)"
        by (auto split: sum.splits)
      show ?thesis
      proof (cases "r = a")
        case True
        with Inr Some c show ?thesis by auto
      next
        case False
        with Cons.prems have "r \<in> set todo" by simp
        from Cons.IH [OF u this] show ?thesis .
      qed
    qed
  qed
qed

lemma update_rows_unique:
  assumes sym: "\<And>a b. conflict a b \<Longrightarrow> conflict b a"
    and chk: "\<And>others v v'. chk others v = Inr v' \<Longrightarrow> v' = v \<and> \<not> list_ex (conflict v) others"
  shows "update_rows nv chk done new todo = Inr (rows', news) \<Longrightarrow>
         unique_index conflict (done @ todo) \<Longrightarrow> unique_index conflict rows'"
proof (induction todo arbitrary: "done" new)
  case Nil
  then show ?case by simp
next
  case (Cons r todo)
  show ?case
  proof (cases "nv r")
    case (Inl e)
    with Cons.prems show ?thesis by simp
  next
    case (Inr x)
    show ?thesis
    proof (cases x)
      case None
      with Inr Cons.prems have "update_rows nv chk (done @ [r]) new todo = Inr (rows', news)"
        by simp
      from Cons.IH [OF this] Cons.prems(2) show ?thesis by simp
    next
      case (Some v)
      with Inr Cons.prems obtain v' where c: "chk (done @ todo) v = Inr v'"
        and u: "update_rows nv chk (done @ [v']) (new @ [v']) todo = Inr (rows', news)"
        by (auto split: sum.splits)
      from chk [OF c] have v: "v' = v" and nc: "\<not> list_ex (conflict v) (done @ todo)" by simp_all
      from nc have nc': "\<forall>x \<in> set done \<union> set todo. \<not> conflict v x \<and> \<not> conflict x v"
        using sym by (auto simp: list_ex_iff)
      from Cons.prems(2) nc' have "unique_index conflict ((done @ [v']) @ todo)"
        unfolding v unique_index_def by (auto simp: sorted_wrt_append)
      from Cons.IH [OF u this] show ?thesis .
    qed
  qed
qed

lemma update_table_Inr:
  assumes ok: "update_table rl now coerce nn cf us bs wh st rows = Inr rows'"
  shows update_table_rows: "rows' = map (stored_version (new_version rl now coerce wh st)) rows"
    and update_table_new: "\<And>r v. r \<in> set rows \<Longrightarrow> new_version rl now coerce wh st r = Inr (Some v) \<Longrightarrow>
           permits rl UPDATE v \<and> nn v \<and> fk_ok us bs v"
    and update_table_unique: "(\<And>a b. cf a b \<Longrightarrow> cf b a) \<Longrightarrow> unique_index cf rows \<Longrightarrow> unique_index cf rows'"
proof -
  let ?nv = "new_version rl now coerce wh st"
  let ?chk = "store_checks rl UPDATE nn cf"
  from ok obtain news where u: "update_rows ?nv ?chk [] [] rows = Inr (rows', news)"
    and fk: "list_all (fk_ok us bs) news"
    by (auto simp: update_table_def split: sum.splits if_splits)
  have chk: "\<And>others v v'. ?chk others v = Inr v' \<Longrightarrow> v' = v"
    by (simp add: store_checks_Inr)
  from update_rows_result [of ?chk, OF chk u]
  have rows: "rows' = map (stored_version ?nv) rows"
    and news: "news = List.map_filter (\<lambda>r. case ?nv r of Inr x \<Rightarrow> x | Inl e \<Rightarrow> None) rows"
    by simp_all
  show "rows' = map (stored_version ?nv) rows" by (rule rows)
  show "permits rl UPDATE v \<and> nn v \<and> fk_ok us bs v"
    if r: "r \<in> set rows" and v: "?nv r = Inr (Some v)" for r v
  proof -
    from update_rows_checked [OF u r] v obtain others v' where "?chk others v = Inr v'"
      by blast
    then have "permits rl UPDATE v \<and> nn v" by (auto dest: store_checks_Inr)
    moreover from r v news have "v \<in> set news"
      by (force simp: List.map_filter_def)
    with fk have "fk_ok us bs v" by (simp add: list_all_iff)
    ultimately show ?thesis by simp
  qed
  show "unique_index cf rows'" if sym: "\<And>a b. cf a b \<Longrightarrow> cf b a" and un: "unique_index cf rows"
  proof (rule update_rows_unique [of cf ?chk, OF sym _ u])
    show "\<And>others v v'. ?chk others v = Inr v' \<Longrightarrow> v' = v \<and> \<not> list_ex (cf v) others"
      by (simp add: store_checks_Inr)
    show "unique_index cf ([] @ rows)" using un by simp
  qed
qed

lemma insert_rows_Inr:
  "insert_rows rl coerce nn cf us bs candidate rows = Inr rows' \<Longrightarrow>
   \<exists>r. coerce candidate = Inr r \<and> rows' = rows @ [r] \<and> permits rl INSERT r \<and> nn r \<and>
       \<not> list_ex (cf r) rows \<and> fk_ok us bs r"
  by (auto simp: insert_rows_def split: sum.splits if_splits dest: store_checks_Inr)

lemma run_snoc: "run (ss @ [s]) d = step (run ss d) s"
  by (simp add: run_def)

lemma run_Nil: "run [] d = d"
  by (simp add: run_def)

lemma new_version_Some:
  "new_version rl now coerce wh st r = Inr (Some v) \<Longrightarrow>
   \<exists>c. coerce (st r) = Inr c \<and> v = update_updated_at_column now c \<and>
       wh r \<and> permits rl SELECT r \<and> permits rl UPDATE r"
  by (auto simp: new_version_def split: if_splits sum.splits)

lemma coerce_reading_progress_Inr:
  "coerce_reading_progress r = Inr c \<Longrightarrow>
   int4_ok (current_page c) \<and> int4_ok (total_pages c) \<and>
   (\<exists>p. numeric_5_2 (progress r) = Inr p \<and> c = r\<lparr>progress := p\<rparr>)"
  by (auto simp: coerce_reading_progress_def split: if_splits sum.splits)

lemma coerce_reading_sessions_Inr:
  "coerce_reading_sessions r = Inr c \<Longrightarrow> int4_ok (pages_read c) \<and> int4_ok (duration c) \<and> c = r"
  by (auto simp: coerce_reading_sessions_def split: if_splits)

lemma conflict_reading_progress_sym:
  "conflict_reading_progress a b \<Longrightarrow> conflict_reading_progress b a"
  by (auto simp: conflict_reading_progress_def same_id_def same_user_book_def split: option.splits)

lemma unique_index_filter: "unique_index cf rows \<Longrightarrow> unique_index cf (filter P rows)"
  by (simp add: unique_index_def sorted_wrt_filter)

lemma unique_index_snoc:
  "(\<And>a b. cf a b \<Longrightarrow> cf b a) \<Longrightarrow> unique_index cf rows \<Longrightarrow> \<not> list_ex (cf r) rows \<Longrightarrow>
   unique_index cf (rows @ [r])"
  by (auto simp: unique_index_def sorted_wrt_append list_ex_iff)

text \<open>The unique indexes of \<^verbatim>\<open>reading_progress\<close> hold in every reachable state.\<close>

lemma exec_stmt_inv_unique:
  assumes "exec_stmt s d = Inr d'" and "inv_unique d"
  shows "inv_unique d'"
proof (cases s)
  case (Insert_progress rl now gen vals)
  with assms(1) obtain rows where
    i: "insert_rows rl coerce_reading_progress not_null_reading_progress conflict_reading_progress
          (users d) (books d) (vals (default_reading_progress now gen)) (tbl_reading_progress d) = Inr rows"
    and d': "d' = d\<lparr>tbl_reading_progress := rows\<rparr>"
    by (auto simp: insert_reading_progress_def split: sum.splits)
  from insert_rows_Inr [OF i] obtain r where "rows = tbl_reading_progress d @ [r]"
    and "\<not> list_ex (conflict_reading_progress r) (tbl_reading_progress d)" by blast
  with assms(2) d' show ?thesis
    by (simp add: inv_unique_def unique_index_snoc conflict_reading_progress_sym)
next
  case (Update_progress rl now wh st)
  with assms(1) obtain rows where
    u: "update_table rl now coerce_reading_progress not_null_reading_progress conflict_reading_progress
          (users d) (books d) wh st (tbl_reading_progress d) = Inr rows"
    and d': "d' = d\<lparr>tbl_reading_progress := rows\<rparr>"
    by (auto simp: update_reading_progress_def split: sum.splits)
  from update_table_unique [OF u conflict_reading_progress_sym] assms(2) d' show ?thesis
    by (simp add: inv_unique_def)
next
  case (Insert_session rl now gen vals)
  with assms show ?thesis
    by (auto simp: insert_reading_sessions_def inv_unique_def split: sum.splits)
next
  case (Update_session rl now wh st)
  with assms show ?thesis
    by (auto simp: update_reading_sessions_def inv_unique_def split: sum.splits)
qed (use assms in \<open>auto simp: inv_unique_def insert_user_def insert_book_def delete_user_def
      delete_book_def delete_reading_progress_def delete_reading_sessions_def delete_rows_def
      unique_index_filter split: if_splits\<close>)

lemma step_inv_unique: "inv_unique d \<Longrightarrow> inv_unique (step d s)"
  by (auto simp: step_def split: sum.splits dest: exec_stmt_inv_unique)

lemma run_inv_unique: "inv_unique d \<Longrightarrow> inv_unique (run ss d)"
  by (induction ss rule: rev_induct) (simp_all add: run_Nil run_snoc step_inv_unique)

lemma inv_unique_empty: "inv_unique empty_db"
  by (simp add: inv_unique_def empty_db_def unique_index_def)

lemma unique_index_at_most_one:
  "unique_index conflict_reading_progress rows \<Longrightarrow> length (filter (for_pair u b) rows) \<le> 1"
proof (induction rows)
  case Nil
  then show ?case by simp
next
  case (Cons r rows)
  then have IH: "length (filter (for_pair u b) rows) \<le> 1"
    and nc: "\<forall>x \<in> set rows. \<not> conflict_reading_progress r x"
    by (simp_all add: unique_index_def)
  show ?case
  proof (cases "for_pair u b r")
    case True
    have "\<not> for_pair u b x" if "x \<in> set rows" for x
      using nc that True
      by (auto simp: conflict_reading_progress_def same_user_book_def for_pair_def sql_eq_def
          split: option.splits)
    then have "filter (for_pair u b) rows = []" by (simp add: filter_empty_conv)
    with True show ?thesis by simp
  next
    case False
    with IH show ?thesis by simp
  qed
qed

subsection \<open>Reports are statements\<close>

lemma reportProgress_exec:
  "reportProgress rl strict now gen u b page pages d = Inr d' \<Longrightarrow> \<exists>s. exec_stmt s d = Inr d'"
proof -
  assume a: "reportProgress rl strict now gen u b page pages d = Inr d'"
  then consider vals where "insert_reading_progress rl now gen vals d = Inr d'"
    | wh st where "update_reading_progress rl now wh st d = Inr d'"
    by (auto simp: reportProgress_def Let_def split: if_splits sum.splits list.splits)
  then show ?thesis
  proof cases
    case 1
    then have "exec_stmt (Insert_progress rl now gen vals) d = Inr d'" by simp
    then show ?thesis ..
  next
    case 2
    then have "exec_stmt (Update_progress rl now wh st) d = Inr d'" by simp
    then show ?thesis ..
  qed
qed

lemma report_step_step: "\<exists>ss. report_step d r = run ss d"
proof (cases r)
  case (Report rl strict now gen u b page pages)
  show ?thesis
  proof (cases "reportProgress rl strict now gen u b page pages d")
    case (Inl e)
    with Report have "report_step d r = run [] d" by (simp add: run_Nil)
    then show ?thesis ..
  next
    case (Inr d')
    from reportProgress_exec [OF Inr] obtain s where "exec_stmt s d = Inr d'" ..
    with Inr Report have "report_step d r = run [s] d" by (simp add: run_def step_def)
    then show ?thesis ..
  qed
qed

lemma run_append: "run (ss @ ts) d = run ts (run ss d)"
  by (simp add: run_def)

lemma reports_run: "\<exists>ss'. reports rs (run ss d) = run ss' d"
proof (induction rs rule: rev_induct)
  case Nil
  have "reports [] (run ss d) = run ss d" by (simp add: reports_def)
  then show ?case ..
next
  case (snoc r rs)
  then obtain ss' where s: "reports rs (run ss d) = run ss' d" ..
  obtain ts where "report_step (run ss' d) r = run ts (run ss' d)"
    using report_step_step by blast
  with s have "reports (rs @ [r]) (run ss d) = run (ss' @ ts) d"
    by (simp add: reports_def run_append)
  then show ?case ..
qed

subsection \<open>Foreign keys\<close>

lemma fk_ok_trigger [simp]: "fk_ok us bs (update_updated_at_column now r) = fk_ok us bs r"
  by (simp add: fk_ok_def update_updated_at_column_def)

lemma update_table_list_all:
  assumes u: "update_table rl now coerce nn cf us bs wh st rows = Inr rows'"
    and old: "list_all Q rows"
    and new: "\<And>r v. r \<in> set rows \<Longrightarrow> new_version rl now coerce wh st r = Inr (Some v) \<Longrightarrow>
                permits rl UPDATE v \<Longrightarrow> nn v \<Longrightarrow> fk_ok us bs v \<Longrightarrow> Q v"
  shows "list_all Q rows'"
proof -
  have "Q (stored_version (new_version rl now coerce wh st) r)" if r: "r \<in> set rows" for r
  proof (cases "new_version rl now coerce wh st r")
    case (Inl e)
    with old r show ?thesis by (simp add: stored_version_def list_all_iff)
  next
    case (Inr x)
    show ?thesis
    proof (cases x)
      case None
      with Inr old r show ?thesis by (simp add: stored_version_def list_all_iff)
    next
      case (Some v)
      with Inr update_table_new [OF u r] new [OF r] have "Q v" by blast
      with Inr Some show ?thesis by (simp add: stored_version_def)
    qed
  qed
  with update_table_rows [OF u] show ?thesis by (simp add: list_all_iff)
qed

lemma fk_ok_mono: "fk_ok us bs r \<Longrightarrow> us \<subseteq> us' \<Longrightarrow> bs \<subseteq> bs' \<Longrightarrow> fk_ok us' bs' r"
  by (auto simp: fk_ok_def split: option.splits)

lemma fk_ok_delete_user: "fk_ok us bs r \<Longrightarrow> user_id r \<noteq> Some u \<Longrightarrow> fk_ok (us - {u}) bs r"
  by (auto simp: fk_ok_def split: option.splits)

lemma fk_ok_delete_book: "fk_ok us bs r \<Longrightarrow> book_id r \<noteq> Some b \<Longrightarrow> fk_ok us (bs - {b}) r"
  by (auto simp: fk_ok_def split: option.splits)

lemma exec_stmt_inv_fk:
  assumes "exec_stmt s d = Inr d'" and "inv_fk d"
  shows "inv_fk d'"
proof (cases s)
  case (Insert_user u)
  with assms show ?thesis
    by (auto simp: inv_fk_def insert_user_def list_all_iff split: if_splits
        intro: fk_ok_mono [where us = "users d" and bs = "books d"])
next
  case (Insert_book b)
  with assms show ?thesis
    by (auto simp: inv_fk_def insert_book_def list_all_iff split: if_splits
        intro: fk_ok_mono [where us = "users d" and bs = "books d"])
next
  case (Delete_user u)
  with assms show ?thesis
    by (auto simp: inv_fk_def delete_user_def list_all_iff fk_ok_delete_user)
next
  case (Delete_book b)
  with assms show ?thesis
    by (auto simp: inv_fk_def delete_book_def list_all_iff fk_ok_delete_book)
next
  case (Insert_progress rl now gen vals)
  with assms(1) obtain rows where
    i: "insert_rows rl coerce_reading_progress not_null_reading_progress conflict_reading_progress
          (users d) (books d) (vals (default_reading_progress now gen)) (tbl_reading_progress d) = Inr rows"
    and d': "d' = d\<lparr>tbl_reading_progress := rows\<rparr>"
    by (auto simp: insert_reading_progress_def split: sum.splits)
  from insert_rows_Inr [OF i] obtain r where "rows = tbl_reading_progress d @ [r]"
    and "fk_ok (users d) (books d) r" by blast
  with assms(2) d' show ?thesis by (simp add: inv_fk_def)
next
  case (Insert_session rl now gen vals)
  with assms(1) obtain rows where
    i: "insert_rows rl coerce_reading_sessions not_null_reading_sessions conflict_reading_sessions
          (users d) (books d) (vals (default_reading_sessions now gen)) (tbl_reading_sessions d) = Inr rows"
    and d': "d' = d\<lparr>tbl_reading_sessions := rows\<rparr>"
    by (auto simp: insert_reading_sessions_def split: sum.splits)
  from insert_rows_Inr [OF i] obtain r where "rows = tbl_reading_sessions d @ [r]"
    and "fk_ok (users d) (books d) r" by blast
  with assms(2) d' show ?thesis by (simp add: inv_fk_def)
next
  case (Update_progress rl now wh st)
  with assms(1) obtain rows where
    u: "update_table rl now coerce_reading_progress not_null_reading_progress conflict_reading_progress
          (users d) (books d) wh st (tbl_reading_progress d) = Inr rows"
    and d': "d' = d\<lparr>tbl_reading_progress := rows\<rparr>"
    by (auto simp: update_reading_progress_def split: sum.splits)
  from assms(2) have "list_all (fk_ok (users d) (books d)) (tbl_reading_progress d)"
    by (simp add: inv_fk_def)
  from update_table_list_all [OF u this] have "list_all (fk_ok (users d) (books d)) rows" by blast
  with assms(2) d' show ?thesis by (simp add: inv_fk_def)
next
  case (Update_session rl now wh st)
  with assms(1) obtain rows where
    u: "update_table rl now coerce_reading_sessions not_null_reading_sessions conflict_reading_sessions
          (users d) (books d) wh st (tbl_reading_sessions d) = Inr rows"
    and d': "d' = d\<lparr>tbl_reading_sessions := rows\<rparr>"
    by (auto simp: update_reading_sessions_def split: sum.splits)
  from assms(2) have "list_all (fk_ok (users d) (books d)) (tbl_reading_sessions d)"
    by (simp add: inv_fk_def)
  from update_table_list_all [OF u this] have "list_all (fk_ok (users d) (books d)) rows" by blast
  with assms(2) d' show ?thesis by (simp add: inv_fk_def)
next
  case (Delete_progress rl wh)
  with assms show ?thesis
    by (auto simp: inv_fk_def delete_reading_progress_def delete_rows_def list_all_iff)
next
  case (Delete_session rl wh)
  with assms show ?thesis
    by (auto simp: inv_fk_def delete_reading_sessions_def delete_rows_def list_all_iff)
qed

lemma step_inv_fk: "inv_fk d \<Longrightarrow> inv_fk (step d s)"
  by (auto simp: step_def split: sum.splits dest: exec_stmt_inv_fk)

lemma run_inv_fk: "inv_fk d \<Longrightarrow> inv_fk (run ss d)"
  by (induction ss rule: rev_induct) (simp_all add: run_Nil run_snoc step_inv_fk)

lemma inv_fk_empty: "inv_fk empty_db"
  by (simp add: inv_fk_def empty_db_def)

subsection \<open>Stored column values\<close>

lemma exec_stmt_inv_cols:
  assumes "exec_stmt s d = Inr d'" and "inv_cols d"
  shows "inv_cols d'"
proof (cases s)
  case (Insert_progress rl now gen vals)
  with assms(1) obtain rows where
    i: "insert_rows rl coerce_reading_progress not_null_reading_progress conflict_reading_progress
          (users d) (books d) (vals (default_reading_progress now gen)) (tbl_reading_progress d) = Inr rows"
    and d': "d' = d\<lparr>tbl_reading_progress := rows\<rparr>"
    by (auto simp: insert_reading_progress_def split: sum.splits)
  from insert_rows_Inr [OF i] obtain r where "rows = tbl_reading_progress d @ [r]"
    and "coerce_reading_progress (vals (default_reading_progress now gen)) = Inr r"
    and "not_null_reading_progress r" by blast
  with assms(2) d' show ?thesis
    by (auto simp: inv_cols_def cols_reading_progress_def dest: coerce_reading_progress_Inr)
next
  case (Insert_session rl now gen vals)
  with assms(1) obtain rows where
    i: "insert_rows rl coerce_reading_sessions not_null_reading_sessions conflict_reading_sessions
          (users d) (books d) (vals (default_reading_sessions now gen)) (tbl_reading_sessions d) = Inr rows"
    and d': "d' = d\<lparr>tbl_reading_sessions := rows\<rparr>"
    by (auto simp: insert_reading_sessions_def split: sum.splits)
  from insert_rows_Inr [OF i] obtain r where "rows = tbl_reading_sessions d @ [r]"
    and "coerce_reading_sessions (vals (default_reading_sessions now gen)) = Inr r"
    and "not_null_reading_sessions r" by blast
  with assms(2) d' show ?thesis
    by (auto simp: inv_cols_def cols_reading_sessions_def dest: coerce_reading_sessions_Inr)
next
  case (Update_progress rl now wh st)
  with assms(1) obtain rows where
    u: "update_table rl now coerce_reading_progress not_null_reading_progress conflict_reading_progress
          (users d) (books d) wh st (tbl_reading_progress d) = Inr rows"
    and d': "d' = d\<lparr>tbl_reading_progress := rows\<rparr>"
    by (auto simp: update_reading_progress_def split: sum.splits)
  from assms(2) have old: "list_all cols_reading_progress (tbl_reading_progress d)"
    by (simp add: inv_cols_def)
  have "list_all cols_reading_progress rows"
  proof (rule update_table_list_all [OF u old])
    fix r v
    assume "new_version rl now coerce_reading_progress wh st r = Inr (Some v)"
      and nn: "not_null_reading_progress v"
    then obtain c where "coerce_reading_progress (st r) = Inr c"
      and "v = update_updated_at_column now c"
      by (blast dest: new_version_Some)
    with nn show "cols_reading_progress v"
      by (auto simp: cols_reading_progress_def update_updated_at_column_def
          dest: coerce_reading_progress_Inr)
  qed
  with assms(2) d' show ?thesis by (simp add: inv_cols_def)
next
  case (Update_session rl now wh st)
  with assms(1) obtain rows where
    u: "update_table rl now coerce_reading_sessions not_null_reading_sessions conflict_reading_sessions
          (users d) (books d) wh st (tbl_reading_sessions d) = Inr rows"
    and d': "d' = d\<lparr>tbl_reading_sessions := rows\<rparr>"
    by (auto simp: update_reading_sessions_def split: sum.splits)
  from assms(2) have old: "list_all cols_reading_sessions (tbl_reading_sessions d)"
    by (simp add: inv_cols_def)
  have "list_all cols_reading_sessions rows"
  proof (rule update_table_list_all [OF u old])
    fix r v
    assume "new_version rl now coerce_reading_sessions wh st r = Inr (Some v)"
      and nn: "not_null_reading_sessions v"
    then obtain c where "coerce_reading_sessions (st r) = Inr c"
      and "v = update_updated_at_column now c"
      by (blast dest: new_version_Some)
    with nn show "cols_reading_sessions v"
      by (auto simp: cols_reading_sessions_def update_updated_at_column_def
          dest: coerce_reading_sessions_Inr)
  qed
  with assms(2) d' show ?thesis by (simp add: inv_cols_def)
qed (use assms in \<open>auto simp: inv_cols_def insert_user_def insert_book_def delete_user_def
      delete_book_def delete_reading_progress_def delete_reading_sessions_def delete_rows_def
      list_all_iff split: if_splits\<close>)

lemma step_inv_cols: "inv_cols d \<Longrightarrow> inv_cols (step d s)"
  by (auto simp: step_def split: sum.splits dest: exec_stmt_inv_cols)

lemma run_inv_cols: "inv_cols d \<Longrightarrow> inv_cols (run ss d)"
  by (induction ss rule: rev_induct) (simp_all add: run_Nil run_snoc step_inv_cols)

lemma inv_cols_empty: "inv_cols empty_db"
  by (simp add: inv_cols_def empty_db_def)

lemma for_pair_iff: "for_pair u b r \<longleftrightarrow> user_id r = Some u \<and> book_id r = Some b"
  by (auto simp: for_pair_def sql_eq_def split: option.splits)

lemma id_col_stored_version_report:
  "id_col (stored_version (new_version rl now coerce_reading_progress wh (report_update cp tp p now')) r)
   = id_col r"
  by (auto simp: stored_version_def new_version_def coerce_reading_progress_def report_update_def
      update_updated_at_column_def split: sum.splits option.splits)

lemma for_pair_stored_version_report:
  "for_pair u b (stored_version (new_version rl now coerce_reading_progress wh (report_update cp tp p now')) r)
   = for_pair u b r"
  by (auto simp: stored_version_def new_version_def coerce_reading_progress_def report_update_def
      update_updated_at_column_def for_pair_iff split: sum.splits option.splits)

lemma reportProgress_existing:
  assumes rp: "reportProgress rl strict now gen u b page pages d = Inr d'"
    and ex: "filter (for_pair u b) (tbl_reading_progress d) \<noteq> []"
  shows "map id_col (tbl_reading_progress d') = map id_col (tbl_reading_progress d) \<and>
         length (filter (for_pair u b) (tbl_reading_progress d')) =
         length (filter (for_pair u b) (tbl_reading_progress d))"
proof -
  from rp consider vals where "insert_reading_progress rl now gen vals d = Inr d'"
      "user_id (vals (default_reading_progress now gen)) = Some u"
      "book_id (vals (default_reading_progress now gen)) = Some b"
    | cp p where "update_reading_progress rl now (for_pair u b) (report_update cp pages p now) d = Inr d'"
    by (auto simp: reportProgress_def Let_def report_insert_def split: if_splits sum.splits list.splits)
  then show ?thesis
  proof cases
    case 1
    from 1(1) obtain rows where
      i: "insert_rows rl coerce_reading_progress not_null_reading_progress conflict_reading_progress
            (users d) (books d) (vals (default_reading_progress now gen)) (tbl_reading_progress d) = Inr rows"
      by (auto simp: insert_reading_progress_def split: sum.splits)
    from insert_rows_Inr [OF i] obtain r where
      c: "coerce_reading_progress (vals (default_reading_progress now gen)) = Inr r"
      and nc: "\<not> list_ex (conflict_reading_progress r) (tbl_reading_progress d)" by blast
    from c 1(2,3) have r: "user_id r = Some u" "book_id r = Some b"
      by (auto dest!: coerce_reading_progress_Inr)
    from ex obtain x where x: "x \<in> set (tbl_reading_progress d)" "for_pair u b x"
      by (auto simp: filter_empty_conv)
    with r have "conflict_reading_progress r x"
      by (simp add: conflict_reading_progress_def same_user_book_def for_pair_iff)
    with nc x show ?thesis by (auto simp: list_ex_iff)
  next
    case 2
    then obtain rows where
      u: "update_table rl now coerce_reading_progress not_null_reading_progress conflict_reading_progress
            (users d) (books d) (for_pair u b) (report_update cp pages p now) (tbl_reading_progress d) = Inr rows"
      and d': "d' = d\<lparr>tbl_reading_progress := rows\<rparr>"
      by (auto simp: update_reading_progress_def split: sum.splits)
    from update_table_rows [OF u] d' show ?thesis
      by (simp add: id_col_stored_version_report for_pair_stored_version_report comp_def filter_map)
  qed
qed

lemma reported_eq: "reports [first_report] (run two_readers empty_db) = reported"
  by code_simp

subsection \<open>Cascading deletes\<close>

text \<open>
  C5.  Deleting a user (or a book) succeeds, removes it, and leaves in both reading
  tables exactly the rows that do not reference it; and in every reachable state each
  non-null \<open>user_id\<close> and \<open>book_id\<close> of a progress or session row names an existing
  user or book.
\<close>

theorem cascade_delete_no_dangling_reference:
  "(\<exists>d'. delete_user u d = Inr d' \<and> u \<notin> users d' \<and>
      tbl_reading_progress d' = filter (\<lambda>r. user_id r \<noteq> Some u) (tbl_reading_progress d) \<and>
      tbl_reading_sessions d' = filter (\<lambda>r. user_id r \<noteq> Some u) (tbl_reading_sessions d) \<and>
      (\<forall>r \<in> set (tbl_reading_progress d'). user_id r \<noteq> Some u) \<and>
      (\<forall>r \<in> set (tbl_reading_sessions d'). user_id r \<noteq> Some u)) \<and>
   (\<exists>d'. delete_book b d = Inr d' \<and> b \<notin> books d' \<and>
      tbl_reading_progress d' = filter (\<lambda>r. book_id r \<noteq> Some b) (tbl_reading_progress d) \<and>
      tbl_reading_sessions d' = filter (\<lambda>r. book_id r \<noteq> Some b) (tbl_reading_sessions d) \<and>
      (\<forall>r \<in> set (tbl_reading_progress d'). book_id r \<noteq> Some b) \<and>
      (\<forall>r \<in> set (tbl_reading_sessions d'). book_id r \<noteq> Some b)) \<and>
   (\<forall>r \<in> set (tbl_reading_progress (run ss empty_db)).
      (\<forall>x. user_id r = Some x \<longrightarrow> x \<in> users (run ss empty_db)) \<and>
      (\<forall>y. book_id r = Some y \<longrightarrow> y \<in> books (run ss empty_db))) \<and>
   (\<forall>r \<in> set (tbl_reading_sessions (run ss empty_db)).
      (\<forall>x. user_id r = Some x \<longrightarrow> x \<in> users (run ss empty_db)) \<and>
      (\<forall>y. book_id r = Some y \<longrightarrow> y \<in> books (run ss empty_db)))"
proof -
  have du: "\<exists>d'. delete_user u d = Inr d' \<and> u \<notin> users d' \<and>
      tbl_reading_progress d' = filter (\<lambda>r. user_id r \<noteq> Some u) (tbl_reading_progress d) \<and>
      tbl_reading_sessions d' = filter (\<lambda>r. user_id r \<noteq> Some u) (tbl_reading_sessions d) \<and>
      (\<forall>r \<in> set (tbl_reading_progress d'). user_id r \<noteq> Some u) \<and>
      (\<forall>r \<in> set (tbl_reading_sessions d'). user_id r \<noteq> Some u)"
    by (simp add: delete_user_def)
  have db: "\<exists>d'. delete_book b d = Inr d' \<and> b \<notin> books d' \<and>
      tbl_reading_progress d' = filter (\<lambda>r. book_id r \<noteq> Some b) (tbl_reading_progress d) \<and>
      tbl_reading_sessions d' = filter (\<lambda>r. book_id r \<noteq> Some b) (tbl_reading_sessions d) \<and>
      (\<forall>r \<in> set (tbl_reading_progress d'). book_id r \<noteq> Some b) \<and>
      (\<forall>r \<in> set (tbl_reading_sessions d'). book_id r \<noteq> Some b)"
    by (simp add: delete_book_def)
  have "inv_fk (run ss empty_db)"
    by (rule run_inv_fk [OF inv_fk_empty])
  then have fk: "\<forall>r \<in> set (tbl_reading_progress (run ss empty_db)).
      fk_ok (users (run ss empty_db)) (books (run ss empty_db)) r"
    and fk': "\<forall>r \<in> set (tbl_reading_sessions (run ss empty_db)).
      fk_ok (users (run ss empty_db)) (books (run ss empty_db)) r"
    by (simp_all add: inv_fk_def list_all_iff)
  from fk have p: "\<forall>r \<in> set (tbl_reading_progress (run ss empty_db)).
      (\<forall>x. user_id r = Some x \<longrightarrow> x \<in> users (run ss empty_db)) \<and>
      (\<forall>y. book_id r = Some y \<longrightarrow> y \<in> books (run ss empty_db))"
    by (auto simp: fk_ok_def)
  from fk' have s: "\<forall>r \<in> set (tbl_reading_sessions (run ss empty_db)).
      (\<forall>x. user_id r = Some x \<longrightarrow> x \<in> users (run ss empty_db)) \<and>
      (\<forall>y. book_id r = Some y \<longrightarrow> y \<in> books (run ss empty_db))"
    by (auto simp: fk_ok_def)
  from du db p s show ?thesis by blast
qed

lemma run_reading_history: "run reading_history empty_db = library"
  by code_simp

theorem cascade_delete_no_dangling_reference_witness:
  "delete_user 1 (run reading_history empty_db) = Inr library_without_user_1 \<and>
   map user_id (tbl_reading_progress (run reading_history empty_db)) = [Some 1] \<and>
   map user_id (tbl_reading_sessions (run reading_history empty_db)) = [Some 1, Some 2] \<and>
   1 \<in> users (run reading_history empty_db) \<and>
   2 \<in> users (run reading_history empty_db) \<and>
   1 \<notin> users library_without_user_1 \<and>
   tbl_reading_progress library_without_user_1 = [] \<and>
   map user_id (tbl_reading_sessions library_without_user_1) = [Some 2]"
proof -
  have d: "delete_user 1 (run reading_history empty_db) = Inr library_without_user_1"
    by code_simp
  have p: "map user_id (tbl_reading_progress (run reading_history empty_db)) = [Some 1]"
    by code_simp
  have s: "map user_id (tbl_reading_sessions (run reading_history empty_db)) = [Some 1, Some 2]"
    by code_simp
  have w: "tbl_reading_progress library_without_user_1 = []"
    "map user_id (tbl_reading_sessions library_without_user_1) = [Some 2]"
    by (simp_all add: library_without_user_1_def)
  from p have "\<lparr>id_col = Some 10, user_id = Some 1, book_id = Some 1,
          created_at = Some 5, updated_at = Some 5,
          current_page = Some 0, total_pages = Some 200, progress = Some 0,
          last_read_at = Some 5\<rparr> \<in> set (tbl_reading_progress (run reading_history empty_db))"
    by (simp add: run_reading_history library_def)
  with cascade_delete_no_dangling_reference [where u = 1 and b = 1
      and d = "run reading_history empty_db" and ss = reading_history]
  have u1: "1 \<in> users (run reading_history empty_db)" by fastforce
  have "\<lparr>id_col = Some 21, user_id = Some 2, book_id = Some 1,
          created_at = Some 7, updated_at = Some 7,
          start_time = Some 7, end_time = None, pages_read = Some 0, duration = Some 0\<rparr>
        \<in> set (tbl_reading_sessions (run reading_history empty_db))"
    by (simp add: run_reading_history library_def)
  with cascade_delete_no_dangling_reference [where u = 1 and b = 1
      and d = "run reading_history empty_db" and ss = reading_history]
  have u2: "2 \<in> users (run reading_history empty_db)" by fastforce
  from cascade_delete_no_dangling_reference [where u = 1 and b = 1
      and d = "run reading_history empty_db" and ss = reading_history] d
  have n: "1 \<notin> users library_without_user_1" by auto
  from d p s w u1 u2 n show ?thesis by simp
qed

subsection \<open>The sign of the counters\<close>

text \<open>
  C6 (as stated, refuted).  The history \<open>negative_history\<close> consists of two ordinary
  inserts by the owner of the rows; both succeed and the tables then hold the negative
  values \<open>current_page = -5\<close>, \<open>total_pages = -1\<close>, \<open>pages_read = -3\<close> and
  \<open>duration = -60\<close>.
\<close>

theorem negative_counts_counterexample:
  "map current_page (tbl_reading_progress (run negative_history empty_db)) = [Some (- 5)] \<and>
   map total_pages (tbl_reading_progress (run negative_history empty_db)) = [Some (- 1)] \<and>
   map pages_read (tbl_reading_sessions (run negative_history empty_db)) = [Some (- 3)] \<and>
   map duration (tbl_reading_sessions (run negative_history empty_db)) = [Some (- 60)]"
  by code_simp

text \<open>
  C6 (amended).  In every reachable state the four columns hold non-null integers of
  the 32-bit signed range: \<^verbatim>\<open>INTEGER NOT NULL\<close> is all the schema declares, and it
  has no \<^verbatim>\<open>CHECK\<close> constraint, so nothing more holds of their sign.
\<close>

theorem stored_counts_int4_not_null:
  "(\<forall>r \<in> set (tbl_reading_progress (run ss empty_db)).
      \<exists>cp tp. current_page r = Some cp \<and> total_pages r = Some tp \<and>
        - 2147483648 \<le> cp \<and> cp \<le> 2147483647 \<and> - 2147483648 \<le> tp \<and> tp \<le> 2147483647) \<and>
   (\<forall>r \<in> set (tbl_reading_sessions (run ss empty_db)).
      \<exists>n s. pages_read r = Some n \<and> duration r = Some s \<and>
        - 2147483648 \<le> n \<and> n \<le> 2147483647 \<and> - 2147483648 \<le> s \<and> s \<le> 2147483647)"
proof -
  have "inv_cols (run ss empty_db)"
    by (rule run_inv_cols [OF inv_cols_empty])
  then show ?thesis
    by (auto simp: inv_cols_def list_all_iff cols_reading_progress_def cols_reading_sessions_def
        not_null_reading_progress_def not_null_reading_sessions_def int4_ok_def)
qed

theorem stored_counts_int4_not_null_witness:
  "map current_page (tbl_reading_progress (run negative_history empty_db)) = [Some (- 5)] \<and>
   (\<exists>cp tp. current_page (hd (tbl_reading_progress (run negative_history empty_db))) = Some cp \<and>
      total_pages (hd (tbl_reading_progress (run negative_history empty_db))) = Some tp \<and>
      - 2147483648 \<le> cp \<and> cp \<le> 2147483647 \<and> - 2147483648 \<le> tp \<and> tp \<le> 2147483647) \<and>
   (\<exists>n s. pages_read (hd (tbl_reading_sessions (run negative_history empty_db))) = Some n \<and>
      duration (hd (tbl_reading_sessions (run negative_history empty_db))) = Some s \<and>
      - 2147483648 \<le> n \<and> n \<le> 2147483647 \<and> - 2147483648 \<le> s \<and> s \<le> 2147483647)"
proof -
  have c: "map current_page (tbl_reading_progress (run negative_history empty_db)) = [Some (- 5)]"
    by code_simp
  have "tbl_reading_progress (run negative_history empty_db) \<noteq> []"
    and "tbl_reading_sessions (run negative_history empty_db) \<noteq> []"
    by code_simp+
  then have "hd (tbl_reading_progress (run negative_history empty_db))
      \<in> set (tbl_reading_progress (run negative_history empty_db))"
    and "hd (tbl_reading_sessions (run negative_history empty_db))
      \<in> set (tbl_reading_sessions (run negative_history empty_db))"
    by simp_all
  with stored_counts_int4_not_null [where ss = negative_history] c
  show ?thesis by blast
qed

subsection \<open>Required and defaulted columns\<close>

lemma insert_rows_ok:
  "coerce c = Inr r \<Longrightarrow> permits rl INSERT r \<Longrightarrow> nn r \<Longrightarrow> \<not> list_ex (cf r) rows \<Longrightarrow>
   fk_ok us bs r \<Longrightarrow> insert_rows rl coerce nn cf us bs c rows = Inr (rows @ [r])"
  by (simp add: insert_rows_def store_checks_def)

lemma round_half_away_of_int [simp]: "round_half_away (of_int n) = n"
proof -
  have "\<lfloor>(of_int n :: rat) + 1 / 2\<rfloor> = n"
    by (rule floor_unique) simp_all
  moreover have "\<lfloor>- (of_int n :: rat) + 1 / 2\<rfloor> = - n"
    by (rule floor_unique) simp_all
  ultimately show ?thesis by (simp add: round_half_away_def)
qed

lemma numeric_5_2_hundredths:
  "\<bar>h\<bar> < 100000 \<Longrightarrow> numeric_5_2 (Some (of_int h / 100)) = Inr (Some (of_int h / 100))"
  by (simp add: numeric_5_2_def)

lemma numeric_5_2_zero [simp]: "numeric_5_2 (Some 0) = Inr (Some 0)"
  using numeric_5_2_hundredths [of 0] by simp

text \<open>
  C7.  \<^verbatim>\<open>total_pages\<close> has no default.  An insert whose row has a null
  \<^verbatim>\<open>total_pages\<close> never succeeds, so the state stays as it was; when the row passes
  the insert policy and its values fit the column types, the error is the
  \<^verbatim>\<open>NOT NULL\<close> violation, a constraint violation.  An insert that names only the
  user, the book and \<^verbatim>\<open>total_pages\<close> (or, for a session, \<^verbatim>\<open>start_time\<close>) succeeds
  for the owner, when user and book exist and no unique index is hit, and stores
  \<^verbatim>\<open>current_page = 0\<close> (\<^verbatim>\<open>pages_read = 0\<close>, \<^verbatim>\<open>duration = 0\<close>).
\<close>

theorem total_pages_required_others_default_zero:
  "total_pages (default_reading_progress now gen) = None \<and>
   ConstraintViolation not_null_violation \<and>
   (total_pages (vals (default_reading_progress now gen)) = None \<longrightarrow>
      (\<exists>e. insert_reading_progress rl now gen vals d = Inl e) \<and>
      step d (Insert_progress rl now gen vals) = d \<and>
      (\<forall>r. coerce_reading_progress (vals (default_reading_progress now gen)) = Inr r \<longrightarrow>
           permits rl INSERT r \<longrightarrow>
           insert_reading_progress rl now gen vals d = Inl not_null_violation)) \<and>
   (u \<in> users d \<longrightarrow> b \<in> books d \<longrightarrow> - 2147483648 \<le> tp \<longrightarrow> tp \<le> 2147483647 \<longrightarrow>
    (\<forall>r \<in> set (tbl_reading_progress d). id_col r \<noteq> Some gen \<and> \<not> for_pair u b r) \<longrightarrow>
      insert_reading_progress (Subject (Some u)) now gen (progress_cols (Some u) (Some b) (Some tp)) d =
        Inr (d\<lparr>tbl_reading_progress := tbl_reading_progress d @
               [(default_reading_progress now gen)
                  \<lparr>user_id := Some u, book_id := Some b, current_page := Some 0,
                   total_pages := Some tp\<rparr>]\<rparr>)) \<and>
   (u \<in> users d \<longrightarrow> b \<in> books d \<longrightarrow>
    (\<forall>r \<in> set (tbl_reading_sessions d). id_col r \<noteq> Some gen) \<longrightarrow>
      insert_reading_sessions (Subject (Some u)) now gen (session_cols (Some u) (Some b) (Some t)) d =
        Inr (d\<lparr>tbl_reading_sessions := tbl_reading_sessions d @
               [(default_reading_sessions now gen)
                  \<lparr>user_id := Some u, book_id := Some b, start_time := Some t,
                   pages_read := Some 0, duration := Some 0\<rparr>]\<rparr>))"
proof -
  let ?c = "vals (default_reading_progress now gen)"
  have A: "total_pages (default_reading_progress now gen) = None"
    by (simp add: default_reading_progress_def)
  have B: "(\<exists>e. insert_reading_progress rl now gen vals d = Inl e) \<and>
      step d (Insert_progress rl now gen vals) = d \<and>
      (\<forall>r. coerce_reading_progress ?c = Inr r \<longrightarrow> permits rl INSERT r \<longrightarrow>
           insert_reading_progress rl now gen vals d = Inl not_null_violation)"
    if n: "total_pages ?c = None"
  proof -
    have nn: "\<not> not_null_reading_progress r" if "coerce_reading_progress ?c = Inr r" for r
      using that n by (auto simp: not_null_reading_progress_def dest!: coerce_reading_progress_Inr)
    have f: "\<exists>e. insert_reading_progress rl now gen vals d = Inl e"
    proof (cases "insert_reading_progress rl now gen vals d")
      case (Inl e)
      then show ?thesis by simp
    next
      case (Inr d')
      then obtain rows where "insert_rows rl coerce_reading_progress not_null_reading_progress
            conflict_reading_progress (users d) (books d) ?c (tbl_reading_progress d) = Inr rows"
        by (auto simp: insert_reading_progress_def split: sum.splits)
      from insert_rows_Inr [OF this] nn show ?thesis by blast
    qed
    then have s: "step d (Insert_progress rl now gen vals) = d"
      by (auto simp: step_def)
    have "insert_reading_progress rl now gen vals d = Inl not_null_violation"
      if "coerce_reading_progress ?c = Inr r" "permits rl INSERT r" for r
      using that nn [OF that(1)]
      by (simp add: insert_reading_progress_def insert_rows_def store_checks_def)
    with f s show ?thesis by blast
  qed
  have C: "insert_reading_progress (Subject (Some u)) now gen (progress_cols (Some u) (Some b) (Some tp)) d =
        Inr (d\<lparr>tbl_reading_progress := tbl_reading_progress d @
               [(default_reading_progress now gen)
                  \<lparr>user_id := Some u, book_id := Some b, current_page := Some 0,
                   total_pages := Some tp\<rparr>]\<rparr>)"
    if "u \<in> users d" "b \<in> books d" "- 2147483648 \<le> tp" "tp \<le> 2147483647"
      "\<forall>r \<in> set (tbl_reading_progress d). id_col r \<noteq> Some gen \<and> \<not> for_pair u b r"
  proof -
    let ?r = "(default_reading_progress now gen)
                  \<lparr>user_id := Some u, book_id := Some b, current_page := Some 0,
                   total_pages := Some tp\<rparr>"
    have 1: "coerce_reading_progress (progress_cols (Some u) (Some b) (Some tp)
               (default_reading_progress now gen)) = Inr ?r"
      using that(3,4)
      by (simp add: coerce_reading_progress_def progress_cols_def default_reading_progress_def
          int4_ok_def)
    have 2: "permits (Subject (Some u)) INSERT ?r"
      by (simp add: sql_eq_def)
    have 3: "not_null_reading_progress ?r"
      by (simp add: not_null_reading_progress_def default_reading_progress_def)
    have 4: "\<not> list_ex (conflict_reading_progress ?r) (tbl_reading_progress d)"
      using that(5)
      by (auto simp: list_ex_iff conflict_reading_progress_def same_id_def same_user_book_def
          for_pair_iff default_reading_progress_def split: option.splits)
    have 5: "fk_ok (users d) (books d) ?r"
      using that(1,2) by (simp add: fk_ok_def)
    have "insert_rows (Subject (Some u)) coerce_reading_progress not_null_reading_progress
            conflict_reading_progress (users d) (books d)
            (progress_cols (Some u) (Some b) (Some tp) (default_reading_progress now gen))
            (tbl_reading_progress d) = Inr (tbl_reading_progress d @ [?r])"
      using 1 2 3 4 5 by (rule insert_rows_ok)
    then show ?thesis
      by (simp add: insert_reading_progress_def)
  qed
  have D: "insert_reading_sessions (Subject (Some u)) now gen (session_cols (Some u) (Some b) (Some t)) d =
        Inr (d\<lparr>tbl_reading_sessions := tbl_reading_sessions d @
               [(default_reading_sessions now gen)
                  \<lparr>user_id := Some u, book_id := Some b, start_time := Some t,
                   pages_read := Some 0, duration := Some 0\<rparr>]\<rparr>)"
    if "u \<in> users d" "b \<in> books d"
      "\<forall>r \<in> set (tbl_reading_sessions d). id_col r \<noteq> Some gen"
  proof -
    let ?r = "(default_reading_sessions now gen)
                  \<lparr>user_id := Some u, book_id := Some b, start_time := Some t,
                   pages_read := Some 0, duration := Some 0\<rparr>"
    have 1: "coerce_reading_sessions (session_cols (Some u) (Some b) (Some t)
               (default_reading_sessions now gen)) = Inr ?r"
      by (simp add: coerce_reading_sessions_def session_cols_def default_reading_sessions_def
          int4_ok_def)
    have 2: "permits (Subject (Some u)) INSERT ?r"
      by (simp add: sql_eq_def)
    have 3: "not_null_reading_sessions ?r"
      by (simp add: not_null_reading_sessions_def default_reading_sessions_def)
    have 4: "\<not> list_ex (conflict_reading_sessions ?r) (tbl_reading_sessions d)"
      using that(3)
      by (auto simp: list_ex_iff conflict_reading_sessions_def same_id_def
          default_reading_sessions_def split: option.splits)
    have 5: "fk_ok (users d) (books d) ?r"
      using that(1,2) by (simp add: fk_ok_def)
    have "insert_rows (Subject (Some u)) coerce_reading_sessions not_null_reading_sessions
            conflict_reading_sessions (users d) (books d)
            (session_cols (Some u) (Some b) (Some t) (default_reading_sessions now gen))
            (tbl_reading_sessions d) = Inr (tbl_reading_sessions d @ [?r])"
      using 1 2 3 4 5 by (rule insert_rows_ok)
    then show ?thesis
      by (simp add: insert_reading_sessions_def)
  qed
  from A B C D show ?thesis by simp
qed

theorem total_pages_required_others_default_zero_witness:
  "total_pages (progress_cols_no_total (Some 1) (Some 1) (default_reading_progress 5 10)) = None \<and>
   insert_reading_progress (Subject (Some 1)) 5 10 (progress_cols_no_total (Some 1) (Some 1))
     (run two_readers empty_db) = Inl not_null_violation \<and>
   step (run two_readers empty_db)
     (Insert_progress (Subject (Some 1)) 5 10 (progress_cols_no_total (Some 1) (Some 1))) =
     run two_readers empty_db \<and>
   1 \<in> users (run two_readers empty_db) \<and> 1 \<in> books (run two_readers empty_db) \<and>
   tbl_reading_progress (run two_readers empty_db) = [] \<and>
   tbl_reading_sessions (run two_readers empty_db) = [] \<and>
   insert_reading_progress (Subject (Some 1)) 5 10 (progress_cols (Some 1) (Some 1) (Some 200))
     (run two_readers empty_db) =
     Inr ((run two_readers empty_db)\<lparr>tbl_reading_progress :=
        tbl_reading_progress (run two_readers empty_db) @
          [(default_reading_progress 5 10)\<lparr>user_id := Some 1, book_id := Some 1,
             current_page := Some 0, total_pages := Some 200\<rparr>]\<rparr>) \<and>
   insert_reading_sessions (Subject (Some 1)) 5 10 (session_cols (Some 1) (Some 1) (Some 6))
     (run two_readers empty_db) =
     Inr ((run two_readers empty_db)\<lparr>tbl_reading_sessions :=
        tbl_reading_sessions (run two_readers empty_db) @
          [(default_reading_sessions 5 10)\<lparr>user_id := Some 1, book_id := Some 1,
             start_time := Some 6, pages_read := Some 0, duration := Some 0\<rparr>]\<rparr>)"
proof -
  note T = total_pages_required_others_default_zero [where now = 5 and gen = 10
      and vals = "progress_cols_no_total (Some 1) (Some 1)" and rl = "Subject (Some 1)"
      and d = "run two_readers empty_db" and u = 1 and b = 1 and tp = 200 and t = 6]
  have n: "total_pages (progress_cols_no_total (Some 1) (Some 1) (default_reading_progress 5 10)) = None"
    by code_simp
  have c: "coerce_reading_progress (progress_cols_no_total (Some 1) (Some 1) (default_reading_progress 5 10))
      = Inr (progress_cols_no_total (Some 1) (Some 1) (default_reading_progress 5 10))"
    by code_simp
  have p: "permits (Subject (Some 1)) INSERT
      (progress_cols_no_total (Some 1) (Some 1) (default_reading_progress 5 10))"
    by code_simp
  have u: "1 \<in> users (run two_readers empty_db)" and b: "1 \<in> books (run two_readers empty_db)"
    by code_simp+
  have e: "tbl_reading_progress (run two_readers empty_db) = []"
    "tbl_reading_sessions (run two_readers empty_db) = []"
    by code_simp+
  from T n c p have 1: "insert_reading_progress (Subject (Some 1)) 5 10
      (progress_cols_no_total (Some 1) (Some 1)) (run two_readers empty_db) = Inl not_null_violation"
    by blast
  from T n have 2: "step (run two_readers empty_db)
     (Insert_progress (Subject (Some 1)) 5 10 (progress_cols_no_total (Some 1) (Some 1))) =
     run two_readers empty_db"
    by blast
  from T u b e have 3: "insert_reading_progress (Subject (Some 1)) 5 10 (progress_cols (Some 1) (Some 1) (Some 200))
     (run two_readers empty_db) =
     Inr ((run two_readers empty_db)\<lparr>tbl_reading_progress :=
        tbl_reading_progress (run two_readers empty_db) @
          [(default_reading_progress 5 10)\<lparr>user_id := Some 1, book_id := Some 1,
             current_page := Some 0, total_pages := Some 200\<rparr>]\<rparr>)"
    by simp
  from T u b e have 4: "insert_reading_sessions (Subject (Some 1)) 5 10 (session_cols (Some 1) (Some 1) (Some 6))
     (run two_readers empty_db) =
     Inr ((run two_readers empty_db)\<lparr>tbl_reading_sessions :=
        tbl_reading_sessions (run two_readers empty_db) @
          [(default_reading_sessions 5 10)\<lparr>user_id := Some 1, book_id := Some 1,
             start_time := Some 6, pages_read := Some 0, duration := Some 0\<rparr>]\<rparr>)"
    by simp
  from n 1 2 u b e 3 4 show ?thesis by blast
qed

subsection \<open>Sessions\<close>

lemma insert_reading_sessions_ok:
  assumes "not_null_reading_sessions (vals (default_reading_sessions now gen))"
    and "int4_ok (pages_read (vals (default_reading_sessions now gen)))"
    and "int4_ok (duration (vals (default_reading_sessions now gen)))"
    and "permits rl INSERT (vals (default_reading_sessions now gen))"
    and "fk_ok (users d) (books d) (vals (default_reading_sessions now gen))"
    and "\<forall>r \<in> set (tbl_reading_sessions d). \<not> same_id (vals (default_reading_sessions now gen)) r"
  shows "insert_reading_sessions rl now gen vals d =
           Inr (d\<lparr>tbl_reading_sessions := tbl_reading_sessions d @ [vals (default_reading_sessions now gen)]\<rparr>)"
proof -
  let ?c = "vals (default_reading_sessions now gen)"
  from assms(2,3) have 1: "coerce_reading_sessions ?c = Inr ?c"
    by (simp add: coerce_reading_sessions_def)
  from assms(6) have 4: "\<not> list_ex (conflict_reading_sessions ?c) (tbl_reading_sessions d)"
    by (simp add: list_ex_iff conflict_reading_sessions_def)
  have "insert_rows rl coerce_reading_sessions not_null_reading_sessions
            conflict_reading_sessions (users d) (books d) ?c (tbl_reading_sessions d)
          = Inr (tbl_reading_sessions d @ [?c])"
    using 1 assms(4) assms(1) 4 assms(5) by (rule insert_rows_ok)
  then show ?thesis by (simp add: insert_reading_sessions_def)
qed

lemma session_cols_default:
  "session_cols (Some u) (Some b) (Some (int i)) (default_reading_sessions (int i) i) = open_row u b i"
  by (simp add: session_cols_def default_reading_sessions_def open_row_def)

lemma open_session_ok:
  assumes "u \<in> users d" "b \<in> books d" "\<forall>r \<in> set (tbl_reading_sessions d). id_col r \<noteq> Some i"
  shows "exec_stmt (open_session u b i) d =
           Inr (d\<lparr>tbl_reading_sessions := tbl_reading_sessions d @ [open_row u b i]\<rparr>)"
proof -
  have "insert_reading_sessions (Subject (Some u)) (int i) i (session_cols (Some u) (Some b) (Some (int i))) d =
        Inr (d\<lparr>tbl_reading_sessions := tbl_reading_sessions d @
          [session_cols (Some u) (Some b) (Some (int i)) (default_reading_sessions (int i) i)]\<rparr>)"
  proof (rule insert_reading_sessions_ok)
    show "\<forall>r \<in> set (tbl_reading_sessions d).
        \<not> same_id (session_cols (Some u) (Some b) (Some (int i)) (default_reading_sessions (int i) i)) r"
      using assms(3) by (auto simp: session_cols_default open_row_def same_id_def split: option.splits)
  qed (use assms(1,2) in \<open>simp_all add: session_cols_default open_row_def not_null_reading_sessions_def
         int4_ok_def fk_ok_def sql_eq_def\<close>)
  then show ?thesis by (simp add: open_session_def session_cols_default)
qed

lemma run_open_sessions:
  "run (open_sessions u b n) empty_db =
     \<lparr>users = {u}, books = {b}, tbl_reading_progress = [],
      tbl_reading_sessions = map (open_row u b) [0..<n]\<rparr>"
proof (induction n)
  case 0
  show ?case
    by (simp add: open_sessions_def run_def step_def insert_user_def insert_book_def empty_db_def)
next
  case (Suc n)
  let ?d = "\<lparr>users = {u}, books = {b}, tbl_reading_progress = [],
      tbl_reading_sessions = map (open_row u b) [0..<n]\<rparr>"
  have "open_sessions u b (Suc n) = open_sessions u b n @ [open_session u b n]"
    by (simp add: open_sessions_def)
  then have "run (open_sessions u b (Suc n)) empty_db = step ?d (open_session u b n)"
    using Suc by (simp add: run_snoc)
  moreover have "exec_stmt (open_session u b n) ?d =
      Inr (?d\<lparr>tbl_reading_sessions := tbl_reading_sessions ?d @ [open_row u b n]\<rparr>)"
    by (rule open_session_ok) (auto simp: open_row_def)
  ultimately show ?case by (simp add: step_def)
qed

subsection \<open>Any number of sessions per pair\<close>

text \<open>
  C8.  \<^verbatim>\<open>reading_sessions\<close> has no unique index but its primary key.  An insert whose
  row satisfies the row's own constraints (insert policy, \<^verbatim>\<open>NOT NULL\<close>, column types,
  existing user and book) and whose \<^verbatim>\<open>id\<close> is fresh succeeds whatever sessions the
  table holds; in particular the owner's insert of an open session (\<^verbatim>\<open>end_time\<close> null)
  for a pair adds one to the open sessions of that pair, however many there are; and for
  every \<open>n\<close> there is a history after which a pair has \<open>n\<close> open sessions.
\<close>

theorem sessions_not_unique_open_never_blocks:
  "(not_null_reading_sessions (vals (default_reading_sessions now gen)) \<longrightarrow>
    int4_ok (pages_read (vals (default_reading_sessions now gen))) \<longrightarrow>
    int4_ok (duration (vals (default_reading_sessions now gen))) \<longrightarrow>
    permits rl INSERT (vals (default_reading_sessions now gen)) \<longrightarrow>
    fk_ok (users d) (books d) (vals (default_reading_sessions now gen)) \<longrightarrow>
    (\<forall>r \<in> set (tbl_reading_sessions d). \<not> same_id (vals (default_reading_sessions now gen)) r) \<longrightarrow>
      insert_reading_sessions rl now gen vals d =
        Inr (d\<lparr>tbl_reading_sessions :=
               tbl_reading_sessions d @ [vals (default_reading_sessions now gen)]\<rparr>)) \<and>
   (u \<in> users d \<longrightarrow> b \<in> books d \<longrightarrow>
    (\<forall>r \<in> set (tbl_reading_sessions d). id_col r \<noteq> Some gen) \<longrightarrow>
      (\<exists>d'. insert_reading_sessions (Subject (Some u)) now gen
               (session_cols (Some u) (Some b) (Some t)) d = Inr d' \<and>
            length (filter (\<lambda>r. for_pair u b r \<and> end_time r = None) (tbl_reading_sessions d')) =
            length (filter (\<lambda>r. for_pair u b r \<and> end_time r = None) (tbl_reading_sessions d)) + 1)) \<and>
   length (filter (\<lambda>r. for_pair u b r \<and> end_time r = None)
             (tbl_reading_sessions (run (open_sessions u b n) empty_db))) = n"
proof -
  let ?c = "session_cols (Some u) (Some b) (Some t) (default_reading_sessions now gen)"
  have B: "\<exists>d'. insert_reading_sessions (Subject (Some u)) now gen
               (session_cols (Some u) (Some b) (Some t)) d = Inr d' \<and>
            length (filter (\<lambda>r. for_pair u b r \<and> end_time r = None) (tbl_reading_sessions d')) =
            length (filter (\<lambda>r. for_pair u b r \<and> end_time r = None) (tbl_reading_sessions d)) + 1"
    if h: "u \<in> users d" "b \<in> books d" "\<forall>r \<in> set (tbl_reading_sessions d). id_col r \<noteq> Some gen"
  proof -
    have "insert_reading_sessions (Subject (Some u)) now gen (session_cols (Some u) (Some b) (Some t)) d =
        Inr (d\<lparr>tbl_reading_sessions := tbl_reading_sessions d @ [?c]\<rparr>)"
    proof (rule insert_reading_sessions_ok)
      show "\<forall>r \<in> set (tbl_reading_sessions d). \<not> same_id ?c r"
        using h(3)
        by (auto simp: session_cols_def default_reading_sessions_def same_id_def split: option.splits)
    qed (use h(1,2) in \<open>simp_all add: session_cols_def default_reading_sessions_def
           not_null_reading_sessions_def int4_ok_def fk_ok_def sql_eq_def\<close>)
    moreover have "for_pair u b ?c \<and> end_time ?c = None"
      by (simp add: for_pair_iff session_cols_def default_reading_sessions_def)
    ultimately show ?thesis by simp
  qed
  have "filter (\<lambda>r. for_pair u b r \<and> end_time r = None) (map (open_row u b) [0..<n])
          = map (open_row u b) [0..<n]"
    by (simp add: filter_id_conv for_pair_iff open_row_def)
  then have C: "length (filter (\<lambda>r. for_pair u b r \<and> end_time r = None)
             (tbl_reading_sessions (run (open_sessions u b n) empty_db))) = n"
    by (simp add: run_open_sessions)
  from insert_reading_sessions_ok [of vals now gen rl d] B C show ?thesis by blast
qed

theorem sessions_not_unique_open_never_blocks_witness:
  "1 \<in> users (run reading_history empty_db) \<and> 1 \<in> books (run reading_history empty_db) \<and>
   map id_col (tbl_reading_sessions (run reading_history empty_db)) = [Some 20, Some 21] \<and>
   length (filter (\<lambda>r. for_pair 1 1 r \<and> end_time r = None)
             (tbl_reading_sessions (run reading_history empty_db))) = 1 \<and>
   (\<exists>d'. insert_reading_sessions (Subject (Some 1)) 8 22 (session_cols (Some 1) (Some 1) (Some 8))
            (run reading_history empty_db) = Inr d' \<and>
         length (filter (\<lambda>r. for_pair 1 1 r \<and> end_time r = None) (tbl_reading_sessions d')) = 2) \<and>
   length (filter (\<lambda>r. for_pair 1 1 r \<and> end_time r = None)
             (tbl_reading_sessions (run (open_sessions 1 1 3) empty_db))) = 3"
proof -
  note T = sessions_not_unique_open_never_blocks [where u = 1 and b = 1 and gen = 22 and now = 8
      and t = 8 and d = "run reading_history empty_db" and n = 3
      and vals = "session_cols (Some 1) (Some 1) (Some 8)" and rl = "Subject (Some 1)"]
  have u: "1 \<in> users (run reading_history empty_db)" and b: "1 \<in> books (run reading_history empty_db)"
    by code_simp+
  have i: "map id_col (tbl_reading_sessions (run reading_history empty_db)) = [Some 20, Some 21]"
    by code_simp
  have l: "length (filter (\<lambda>r. for_pair 1 1 r \<and> end_time r = None)
             (tbl_reading_sessions (run reading_history empty_db))) = 1"
    by code_simp
  have "list_all (\<lambda>r. id_col r \<noteq> Some 22) (tbl_reading_sessions (run reading_history empty_db))"
    by code_simp
  then have f: "\<forall>r \<in> set (tbl_reading_sessions (run reading_history empty_db)). id_col r \<noteq> Some 22"
    by (simp add: list_all_iff)
  from T u b f obtain d' where
    d: "insert_reading_sessions (Subject (Some 1)) 8 22 (session_cols (Some 1) (Some 1) (Some 8))
            (run reading_history empty_db) = Inr d'"
    and "length (filter (\<lambda>r. for_pair 1 1 r \<and> end_time r = None) (tbl_reading_sessions d')) =
         length (filter (\<lambda>r. for_pair 1 1 r \<and> end_time r = None)
           (tbl_reading_sessions (run reading_history empty_db))) + 1"
    by blast
  with l have "length (filter (\<lambda>r. for_pair 1 1 r \<and> end_time r = None) (tbl_reading_sessions d')) = 2"
    by simp
  with d have "\<exists>d'. insert_reading_sessions (Subject (Some 1)) 8 22 (session_cols (Some 1) (Some 1) (Some 8))
            (run reading_history empty_db) = Inr d' \<and>
         length (filter (\<lambda>r. for_pair 1 1 r \<and> end_time r = None) (tbl_reading_sessions d')) = 2"
    by blast
  with T u b i l show ?thesis by blast
qed

subsection \<open>Policies\<close>

lemma permits_Subject_iff:
  "permits (Subject uid) c r \<longleftrightarrow> c \<noteq> DELETE \<and> uid \<noteq> None \<and> user_id r = uid"
  by (cases c) (auto simp: sql_eq_def split: option.splits)

lemma select_rows_Subject:
  "select_rows (Subject (Some a)) wh rows = Inr (filter (\<lambda>r. user_id r = Some a \<and> wh r) rows)"
proof -
  have "(\<lambda>r. permits (Subject (Some a)) SELECT r \<and> wh r) = (\<lambda>r. user_id r = Some a \<and> wh r)"
    by (auto simp: fun_eq_iff sql_eq_def split: option.splits)
  then show ?thesis by (simp add: select_rows_def)
qed

lemma filter_owned_by_other:
  "a \<noteq> b \<Longrightarrow> filter (owned_by b) (filter (\<lambda>r. user_id r = Some a \<and> w r) xs) = []"
  by (auto simp: filter_empty_conv owned_by_def sql_eq_def)

text \<open>
  C2 (amended).  A read by a caller authenticated as \<open>a\<close> never fails: on either table
  it returns the rows that satisfy its \<^verbatim>\<open>WHERE\<close> clause and whose \<^verbatim>\<open>user_id\<close> is
  \<open>a\<close>, so every row of another user \<open>b\<close> is left out of the result; a read aimed
  only at rows of \<open>b\<close> returns the empty list.  The counterexample to the claim as
  stated follows the theorem.
\<close>

theorem read_returns_own_rows_only:
  "select_reading_progress (Subject (Some a)) wh d =
     Inr (filter (\<lambda>r. user_id r = Some a \<and> wh r) (tbl_reading_progress d)) \<and>
   select_reading_sessions (Subject (Some a)) wh' d =
     Inr (filter (\<lambda>r. user_id r = Some a \<and> wh' r) (tbl_reading_sessions d)) \<and>
   (\<forall>rows. select_reading_progress (Subject (Some a)) wh d = Inr rows \<longrightarrow>
      (\<forall>r \<in> set rows. user_id r = Some a) \<and> (a \<noteq> b \<longrightarrow> filter (owned_by b) rows = [])) \<and>
   (\<forall>rows. select_reading_sessions (Subject (Some a)) wh' d = Inr rows \<longrightarrow>
      (\<forall>r \<in> set rows. user_id r = Some a) \<and> (a \<noteq> b \<longrightarrow> filter (owned_by b) rows = []))"
proof -
  have 1: "select_reading_progress (Subject (Some a)) wh d =
     Inr (filter (\<lambda>r. user_id r = Some a \<and> wh r) (tbl_reading_progress d))"
    by (simp only: select_reading_progress_def select_rows_Subject)
  have 2: "select_reading_sessions (Subject (Some a)) wh' d =
     Inr (filter (\<lambda>r. user_id r = Some a \<and> wh' r) (tbl_reading_sessions d))"
    by (simp only: select_reading_sessions_def select_rows_Subject)
  have 3: "(\<forall>r \<in> set rows. user_id r = Some a) \<and> (a \<noteq> b \<longrightarrow> filter (owned_by b) rows = [])"
    if "select_reading_progress (Subject (Some a)) wh d = Inr rows" for rows
  proof -
    from that 1 have "rows = filter (\<lambda>r. user_id r = Some a \<and> wh r) (tbl_reading_progress d)"
      by simp
    then show ?thesis using filter_owned_by_other [of a b] by auto
  qed
  have 4: "(\<forall>r \<in> set rows. user_id r = Some a) \<and> (a \<noteq> b \<longrightarrow> filter (owned_by b) rows = [])"
    if "select_reading_sessions (Subject (Some a)) wh' d = Inr rows" for rows
  proof -
    from that 2 have "rows = filter (\<lambda>r. user_id r = Some a \<and> wh' r) (tbl_reading_sessions d)"
      by simp
    then show ?thesis using filter_owned_by_other [of a b] by auto
  qed
  show ?thesis
    apply (intro conjI allI impI)
         apply (rule 1)
        apply (rule 2)
       apply (simp add: 3)
      apply (simp add: 3)
     apply (simp add: 4)
    apply (simp add: 4)
    done
qed

text \<open>
  C2 (as stated, refuted).  In the state \<open>library\<close>, reached by \<open>reading_history\<close>,
  user 1 owns a progress row and user 2 a session.  User 2 reading user 1's progress for
  the book, user 2 listing user 1's progress, and user 1 listing user 2's sessions each
  get the empty result, not an error.
\<close>

theorem read_of_foreign_rows_counterexample:
  "run reading_history empty_db = library \<and>
   map user_id (tbl_reading_progress library) = [Some 1] \<and>
   map user_id (tbl_reading_sessions library) = [Some 1, Some 2] \<and>
   select_reading_progress (Subject (Some 2)) (for_pair 1 1) library = Inr [] \<and>
   select_reading_progress (Subject (Some 2)) (owned_by 1) library = Inr [] \<and>
   select_reading_sessions (Subject (Some 1)) (owned_by 2) library = Inr [] \<and>
   select_reading_progress (Subject (Some 2)) (for_pair 1 1) library \<noteq> Inl insufficient_privilege"
proof -
  have 1: "map user_id (tbl_reading_progress library) = [Some 1]"
    and 2: "map user_id (tbl_reading_sessions library) = [Some 1, Some 2]"
    by (simp_all add: library_def)
  have 3: "select_reading_progress (Subject (Some 2)) (for_pair 1 1) library = Inr []"
    by (simp add: select_reading_progress_def select_rows_Subject library_def)
  have 4: "select_reading_progress (Subject (Some 2)) (owned_by 1) library = Inr []"
    by (simp add: select_reading_progress_def select_rows_Subject library_def)
  have 5: "select_reading_sessions (Subject (Some 1)) (owned_by 2) library = Inr []"
    by (simp add: select_reading_sessions_def select_rows_Subject library_def owned_by_def sql_eq_def)
  from run_reading_history 1 2 3 4 5 show ?thesis by simp
qed

theorem read_returns_own_rows_only_witness:
  "select_reading_progress (Subject (Some 1)) (for_pair 1 1) library =
     Inr (tbl_reading_progress library) \<and>
   tbl_reading_progress library \<noteq> [] \<and>
   select_reading_sessions (Subject (Some 1)) (for_pair 1 1) library =
     Inr [hd (tbl_reading_sessions library)] \<and>
   user_id (hd (tbl_reading_progress library)) = Some 1 \<and>
   user_id (hd (tbl_reading_sessions library)) = Some 1 \<and>
   filter (owned_by 2) (tbl_reading_progress library) = [] \<and>
   filter (owned_by 2) [hd (tbl_reading_sessions library)] = []"
proof -
  note T = read_returns_own_rows_only [where a = 1 and b = 2 and d = library
      and wh = "for_pair 1 1" and wh' = "for_pair 1 1"]
  have p: "select_reading_progress (Subject (Some 1)) (for_pair 1 1) library =
     Inr (tbl_reading_progress library)"
    by (simp add: select_reading_progress_def select_rows_Subject library_def for_pair_iff)
  have s: "select_reading_sessions (Subject (Some 1)) (for_pair 1 1) library =
     Inr [hd (tbl_reading_sessions library)]"
    by (simp add: select_reading_sessions_def select_rows_Subject library_def for_pair_iff)
  have n: "tbl_reading_progress library \<noteq> []"
    by (simp add: library_def)
  have ne: "(1::nat) \<noteq> 2" by simp
  from n have h: "hd (tbl_reading_progress library) \<in> set (tbl_reading_progress library)" by simp
  from T p have "\<forall>r \<in> set (tbl_reading_progress library). user_id r = Some 1" by blast
  with h have 1: "user_id (hd (tbl_reading_progress library)) = Some 1" by blast
  from T s have "\<forall>r \<in> set [hd (tbl_reading_sessions library)]. user_id r = Some 1" by blast
  then have 2: "user_id (hd (tbl_reading_sessions library)) = Some 1" by simp
  from T p ne have 3: "filter (owned_by 2) (tbl_reading_progress library) = []" by blast
  from T s ne have 4: "filter (owned_by 2) [hd (tbl_reading_sessions library)] = []" by blast
  from p n s 1 2 3 4 show ?thesis by blast
qed

subsection \<open>Rows without a user\<close>

lemma filter_map_fixed:
  "(\<And>x. x \<in> set xs \<Longrightarrow> (P x \<longrightarrow> f x = x) \<and> (\<not> P x \<longrightarrow> \<not> P (f x))) \<Longrightarrow>
   filter P (map f xs) = filter P xs"
  by (induction xs) auto

lemma new_version_hidden:
  "\<not> permits rl UPDATE r \<Longrightarrow> new_version rl now coerce wh st r = Inr None"
  by (simp add: new_version_def)

lemma update_table_null_user:
  assumes u: "update_table (Subject uid) now coerce nn cf us bs wh st rows = Inr rows'"
  shows "filter (\<lambda>x. user_id x = None) rows' = filter (\<lambda>x. user_id x = None) rows"
proof -
  let ?nv = "new_version (Subject uid) now coerce wh st"
  have "(user_id x = None \<longrightarrow> stored_version ?nv x = x) \<and>
        (user_id x \<noteq> None \<longrightarrow> user_id (stored_version ?nv x) \<noteq> None)"
    if x: "x \<in> set rows" for x
  proof (intro conjI impI)
    assume "user_id x = None"
    then have "\<not> permits (Subject uid) UPDATE x" by (auto simp only: permits_Subject_iff)
    then show "stored_version ?nv x = x"
      by (simp add: stored_version_def new_version_hidden)
  next
    assume n: "user_id x \<noteq> None"
    show "user_id (stored_version ?nv x) \<noteq> None"
    proof (cases "?nv x")
      case (Inl e)
      with n show ?thesis by (simp add: stored_version_def)
    next
      case (Inr y)
      show ?thesis
      proof (cases y)
        case None
        with Inr n show ?thesis by (simp add: stored_version_def)
      next
        case (Some v)
        with Inr update_table_new [OF u x] have "permits (Subject uid) UPDATE v" by blast
        then have "user_id v \<noteq> None" by (auto simp only: permits_Subject_iff)
        with Inr Some show ?thesis by (simp add: stored_version_def)
      qed
    qed
  qed
  then have "filter (\<lambda>x. user_id x = None) (map (stored_version ?nv) rows)
      = filter (\<lambda>x. user_id x = None) rows"
    by (intro filter_map_fixed) blast
  with update_table_rows [OF u] show ?thesis by simp
qed

lemma run_null_user_history:
  "map user_id (tbl_reading_progress (run null_user_history empty_db)) = [None, None]"
  "map book_id (tbl_reading_progress (run null_user_history empty_db)) = [Some 1, Some 1]"
  "map user_id (tbl_reading_sessions (run null_user_history empty_db)) = [None]"
  "map book_id (tbl_reading_sessions (run null_user_history empty_db)) = [None]"
  by code_simp+

text \<open>
  C9.  \<^verbatim>\<open>user_id\<close> and \<^verbatim>\<open>book_id\<close> are nullable in both tables: the history
  \<open>null_user_history\<close> stores two progress rows with a null user for the same book, and
  a session with neither user nor book.  A row with a null \<^verbatim>\<open>user_id\<close> clashes with
  no row on \<^verbatim>\<open>UNIQUE(user_id, book_id)\<close>.  No policy admits such a row for any value
  of \<^verbatim>\<open>auth.uid()\<close>: a bound caller's select never returns one, its update leaves the
  rows with a null user exactly as they were, its delete changes nothing, and its insert
  of such a row never succeeds.
\<close>

theorem null_user_rows_admitted_but_hidden:
  "map user_id (tbl_reading_progress (run null_user_history empty_db)) = [None, None] \<and>
   map book_id (tbl_reading_progress (run null_user_history empty_db)) = [Some 1, Some 1] \<and>
   map user_id (tbl_reading_sessions (run null_user_history empty_db)) = [None] \<and>
   map book_id (tbl_reading_sessions (run null_user_history empty_db)) = [None] \<and>
   (user_id (r :: reading_progress) = None \<longrightarrow>
      \<not> same_user_book r s \<and> \<not> same_user_book s r \<and>
      policy c uid r \<noteq> Some True \<and> \<not> permits (Subject uid) c r) \<and>
   (user_id (q :: reading_sessions) = None \<longrightarrow>
      policy c uid q \<noteq> Some True \<and> \<not> permits (Subject uid) c q) \<and>
   (\<forall>rows. select_reading_progress (Subject uid) wh d = Inr rows \<longrightarrow>
      (\<forall>x \<in> set rows. user_id x \<noteq> None)) \<and>
   (\<forall>d'. update_reading_progress (Subject uid) now wh st d = Inr d' \<longrightarrow>
      filter (\<lambda>x. user_id x = None) (tbl_reading_progress d') =
      filter (\<lambda>x. user_id x = None) (tbl_reading_progress d)) \<and>
   delete_reading_progress (Subject uid) wh d = Inr d \<and>
   (user_id (vals (default_reading_progress now gen)) = None \<longrightarrow>
      (\<exists>e. insert_reading_progress (Subject uid) now gen vals d = Inl e))"
proof -
  have A: "\<not> same_user_book r s \<and> \<not> same_user_book s r \<and>
      policy c uid r \<noteq> Some True \<and> \<not> permits (Subject uid) c r"
    if "user_id r = None"
    using that by (cases c) (auto simp: same_user_book_def sql_eq_def split: option.splits)
  have B: "policy c uid q \<noteq> Some True \<and> \<not> permits (Subject uid) c q"
    if "user_id q = None"
    using that by (cases c) (auto simp: sql_eq_def split: option.splits)
  have C: "\<forall>x \<in> set rows. user_id x \<noteq> None"
    if "select_reading_progress (Subject uid) wh d = Inr rows" for rows
    using that
    by (auto simp: select_reading_progress_def select_rows_def sql_eq_def split: option.splits)
  have D: "filter (\<lambda>x. user_id x = None) (tbl_reading_progress d') =
      filter (\<lambda>x. user_id x = None) (tbl_reading_progress d)"
    if "update_reading_progress (Subject uid) now wh st d = Inr d'" for d'
  proof -
    from that obtain rows where
      u: "update_table (Subject uid) now coerce_reading_progress not_null_reading_progress
            conflict_reading_progress (users d) (books d) wh st (tbl_reading_progress d) = Inr rows"
      and d': "d' = d\<lparr>tbl_reading_progress := rows\<rparr>"
      by (auto simp: update_reading_progress_def split: sum.splits)
    from update_table_null_user [OF u] d' show ?thesis by simp
  qed
  have E: "delete_reading_progress (Subject uid) wh d = Inr d"
    by (simp add: delete_reading_progress_def delete_rows_def)
  have F: "\<exists>e. insert_reading_progress (Subject uid) now gen vals d = Inl e"
    if n: "user_id (vals (default_reading_progress now gen)) = None"
  proof (cases "insert_reading_progress (Subject uid) now gen vals d")
    case (Inl e)
    then show ?thesis by simp
  next
    case (Inr d')
    then obtain rows where "insert_rows (Subject uid) coerce_reading_progress not_null_reading_progress
          conflict_reading_progress (users d) (books d) (vals (default_reading_progress now gen))
          (tbl_reading_progress d) = Inr rows"
      by (auto simp: insert_reading_progress_def split: sum.splits)
    from insert_rows_Inr [OF this] obtain r where
      c: "coerce_reading_progress (vals (default_reading_progress now gen)) = Inr r"
      and p: "permits (Subject uid) INSERT r" by blast
    from c n have "user_id r = None" by (auto dest!: coerce_reading_progress_Inr)
    with p show ?thesis by (auto simp only: permits_Subject_iff)
  qed
  from run_null_user_history A B C D E F show ?thesis by blast
qed

theorem null_user_rows_admitted_but_hidden_witness:
  "user_id (hd (tbl_reading_progress (run null_user_history empty_db))) = None \<and>
   user_id (hd (tbl_reading_sessions (run null_user_history empty_db))) = None \<and>
   \<not> permits (Subject (Some 1)) SELECT (hd (tbl_reading_progress (run null_user_history empty_db))) \<and>
   \<not> permits (Subject (Some 1)) SELECT (hd (tbl_reading_sessions (run null_user_history empty_db))) \<and>
   select_reading_progress (Subject (Some 1)) all_rows (run null_user_history empty_db) = Inr [] \<and>
   update_reading_progress (Subject (Some 1)) 9 all_rows (set_created_at (Some 0))
     (run null_user_history empty_db) = Inr (run null_user_history empty_db) \<and>
   length (filter (\<lambda>x. user_id x = None) (tbl_reading_progress (run null_user_history empty_db))) = 2 \<and>
   user_id (progress_cols None (Some 1) (Some 100) (default_reading_progress 9 12)) = None \<and>
   insert_reading_progress (Subject (Some 1)) 9 12 (progress_cols None (Some 1) (Some 100))
     (run null_user_history empty_db) = Inl insufficient_privilege"
proof -
  note T = null_user_rows_admitted_but_hidden [where uid = "Some 1" and c = SELECT
      and r = "hd (tbl_reading_progress (run null_user_history empty_db))"
      and q = "hd (tbl_reading_sessions (run null_user_history empty_db))"
      and d = "run null_user_history empty_db" and wh = all_rows and now = 9
      and st = "set_created_at (Some 0)" and gen = 12
      and vals = "progress_cols None (Some 1) (Some 100)"]
  have 1: "user_id (hd (tbl_reading_progress (run null_user_history empty_db))) = None"
    by code_simp
  have 2: "user_id (hd (tbl_reading_sessions (run null_user_history empty_db))) = None"
    by code_simp
  have 3: "select_reading_progress (Subject (Some 1)) all_rows (run null_user_history empty_db) = Inr []"
    by code_simp
  have 4: "update_reading_progress (Subject (Some 1)) 9 all_rows (set_created_at (Some 0))
     (run null_user_history empty_db) = Inr (run null_user_history empty_db)"
    by code_simp
  have 5: "length (filter (\<lambda>x. user_id x = None) (tbl_reading_progress (run null_user_history empty_db))) = 2"
    by code_simp
  have 6: "user_id (progress_cols None (Some 1) (Some 100) (default_reading_progress 9 12)) = None"
    by code_simp
  have 7: "insert_reading_progress (Subject (Some 1)) 9 12 (progress_cols None (Some 1) (Some 100))
     (run null_user_history empty_db) = Inl insufficient_privilege"
    by code_simp
  from T 1 have 8: "\<not> permits (Subject (Some 1)) SELECT (hd (tbl_reading_progress (run null_user_history empty_db)))"
    by blast
  from T 2 have 9: "\<not> permits (Subject (Some 1)) SELECT (hd (tbl_reading_sessions (run null_user_history empty_db)))"
    by blast
  from 1 2 3 4 5 6 7 8 9 show ?thesis by blast
qed

subsection \<open>The effect of an update on each row\<close>

lemma update_table_total:
  assumes ok: "update_table rl now coerce nn cf us bs wh st rows = Inr rows'" and r: "r \<in> set rows"
  shows "\<exists>x. new_version rl now coerce wh st r = Inr x"
proof -
  from ok obtain news where
    "update_rows (new_version rl now coerce wh st) (store_checks rl UPDATE nn cf) [] [] rows = Inr (rows', news)"
    by (auto simp: update_table_def split: sum.splits if_splits)
  from update_rows_checked [OF this r] show ?thesis by blast
qed

lemma update_table_effect:
  assumes ok: "update_table rl now coerce nn cf us bs wh st rows = Inr rows'"
  shows "list_all2
           (\<lambda>r r'. if wh r \<and> permits rl SELECT r \<and> permits rl UPDATE r
                    then \<exists>c. coerce (st r) = Inr c \<and> r' = update_updated_at_column now c
                    else r' = r)
           rows rows'"
proof -
  let ?nv = "new_version rl now coerce wh st"
  have "if wh r \<and> permits rl SELECT r \<and> permits rl UPDATE r
        then \<exists>c. coerce (st r) = Inr c \<and> stored_version ?nv r = update_updated_at_column now c
        else stored_version ?nv r = r"
    if r: "r \<in> set rows" for r
  proof -
    from update_table_total [OF ok r] obtain x where x: "?nv r = Inr x" ..
    then show ?thesis
      by (auto simp: new_version_def stored_version_def split: if_splits sum.splits)
  qed
  then have "list_all2
           (\<lambda>r r'. if wh r \<and> permits rl SELECT r \<and> permits rl UPDATE r
                    then \<exists>c. coerce (st r) = Inr c \<and> r' = update_updated_at_column now c
                    else r' = r)
           rows (map (stored_version ?nv) rows)"
    by (simp add: list_all2_map2 list_all2_same)
  with update_table_rows [OF ok] show ?thesis by simp
qed

lemma update_reading_progress_effect:
  assumes "update_reading_progress rl now wh st d = Inr d'"
  shows "list_all2
           (\<lambda>r r'. if wh r \<and> permits rl SELECT r \<and> permits rl UPDATE r
                    then \<exists>p. numeric_5_2 (progress (st r)) = Inr p \<and>
                             r' = (st r)\<lparr>updated_at := Some now, progress := p\<rparr>
                    else r' = r)
           (tbl_reading_progress d) (tbl_reading_progress d')"
proof -
  from assms obtain rows where
    u: "update_table rl now coerce_reading_progress not_null_reading_progress
          conflict_reading_progress (users d) (books d) wh st (tbl_reading_progress d) = Inr rows"
    and d': "d' = d\<lparr>tbl_reading_progress := rows\<rparr>"
    by (auto simp: update_reading_progress_def split: sum.splits)
  have "list_all2
           (\<lambda>r r'. if wh r \<and> permits rl SELECT r \<and> permits rl UPDATE r
                    then \<exists>p. numeric_5_2 (progress (st r)) = Inr p \<and>
                             r' = (st r)\<lparr>updated_at := Some now, progress := p\<rparr>
                    else r' = r)
           (tbl_reading_progress d) rows"
    by (rule list_all2_mono [OF update_table_effect [OF u]])
      (auto simp: update_updated_at_column_def dest!: coerce_reading_progress_Inr split: if_splits)
  with d' show ?thesis by simp
qed

lemma update_reading_sessions_effect:
  assumes "update_reading_sessions rl now wh st d = Inr d'"
  shows "list_all2
           (\<lambda>r r'. if wh r \<and> permits rl SELECT r \<and> permits rl UPDATE r
                    then r' = (st r)\<lparr>updated_at := Some now\<rparr>
                    else r' = r)
           (tbl_reading_sessions d) (tbl_reading_sessions d')"
proof -
  from assms obtain rows where
    u: "update_table rl now coerce_reading_sessions not_null_reading_sessions
          conflict_reading_sessions (users d) (books d) wh st (tbl_reading_sessions d) = Inr rows"
    and d': "d' = d\<lparr>tbl_reading_sessions := rows\<rparr>"
    by (auto simp: update_reading_sessions_def split: sum.splits)
  have "list_all2
           (\<lambda>r r'. if wh r \<and> permits rl SELECT r \<and> permits rl UPDATE r
                    then r' = (st r)\<lparr>updated_at := Some now\<rparr>
                    else r' = r)
           (tbl_reading_sessions d) rows"
    by (rule list_all2_mono [OF update_table_effect [OF u]])
      (auto simp: update_updated_at_column_def dest!: coerce_reading_sessions_Inr split: if_splits)
  with d' show ?thesis by simp
qed

subsection \<open>Timestamps\<close>

lemma list_all2_same_image: "list_all2 (\<lambda>x y. g y = g x) xs ys \<Longrightarrow> map g ys = map g xs"
  by (induction rule: list_all2_induct) simp_all

text \<open>
  C4 (as stated, refuted for \<^verbatim>\<open>created_at\<close>).  In the state \<open>library\<close> user 1 owns a
  progress row created at time 5 and a session created at time 6.  The owner's update
  \<^verbatim>\<open>SET created_at = 0\<close> succeeds on both tables and the rows then carry
  \<^verbatim>\<open>created_at = 0\<close>: the update did not leave the column untouched.
\<close>

theorem update_assigns_created_at_counterexample:
  "run reading_history empty_db = library \<and>
   map created_at (tbl_reading_progress library) = [Some 5] \<and>
   map created_at (tbl_reading_sessions library) = [Some 6, Some 7] \<and>
   update_reading_progress (Subject (Some 1)) 9 all_rows (set_created_at (Some 0)) library =
     Inr (library\<lparr>tbl_reading_progress :=
            [(hd (tbl_reading_progress library))\<lparr>created_at := Some 0, updated_at := Some 9\<rparr>]\<rparr>) \<and>
   update_reading_sessions (Subject (Some 1)) 9 all_rows (set_created_at (Some 0)) library =
     Inr (library\<lparr>tbl_reading_sessions :=
            [(hd (tbl_reading_sessions library))\<lparr>created_at := Some 0, updated_at := Some 9\<rparr>,
             last (tbl_reading_sessions library)]\<rparr>) \<and>
   created_at ((hd (tbl_reading_progress library))\<lparr>created_at := Some 0, updated_at := Some 9\<rparr>) = Some 0 \<and>
   created_at ((hd (tbl_reading_sessions library))\<lparr>created_at := Some 0, updated_at := Some 9\<rparr>) = Some 0"
proof -
  have 1: "map created_at (tbl_reading_progress library) = [Some 5]"
    "map created_at (tbl_reading_sessions library) = [Some 6, Some 7]"
    by (simp_all add: library_def)
  have 2: "update_reading_progress (Subject (Some 1)) 9 all_rows (set_created_at (Some 0)) library =
     Inr (library\<lparr>tbl_reading_progress :=
            [(hd (tbl_reading_progress library))\<lparr>created_at := Some 0, updated_at := Some 9\<rparr>]\<rparr>)"
    by code_simp
  have 3: "update_reading_sessions (Subject (Some 1)) 9 all_rows (set_created_at (Some 0)) library =
     Inr (library\<lparr>tbl_reading_sessions :=
            [(hd (tbl_reading_sessions library))\<lparr>created_at := Some 0, updated_at := Some 9\<rparr>,
             last (tbl_reading_sessions library)]\<rparr>)"
    by code_simp
  from run_reading_history 1 2 3 show ?thesis by simp
qed

text \<open>
  C4 (amended).  The trigger function sets \<^verbatim>\<open>updated_at\<close> to \<^verbatim>\<open>NOW()\<close> and leaves
  \<^verbatim>\<open>created_at\<close> as it finds it.  It runs before every row update of either table,
  after the \<^verbatim>\<open>SET\<close> clause: in the state after a successful \<^verbatim>\<open>UPDATE\<close>, each row
  the statement worked on has \<^verbatim>\<open>updated_at = now\<close> whatever the \<^verbatim>\<open>SET\<close> clause
  \<open>st\<close> supplied for that column, and its \<^verbatim>\<open>created_at\<close> is the one of \<open>st r\<close>;
  every other row is unchanged.  So an update whose \<^verbatim>\<open>SET\<close> clause does not assign
  \<^verbatim>\<open>created_at\<close> leaves that column of every row as it was, and one that assigns it
  stores the assigned value.  An insert stores the \<^verbatim>\<open>created_at\<close> of its row of
  values, which is \<^verbatim>\<open>NOW()\<close> by default.
\<close>

theorem updated_at_refreshed_on_update:
  "updated_at (update_updated_at_column now NEW) = Some now \<and>
   created_at (update_updated_at_column now NEW) = created_at NEW \<and>
   created_at (default_reading_progress now gen) = Some now \<and>
   created_at (default_reading_sessions now gen) = Some now \<and>
   (\<forall>e'. insert_reading_progress ri now gen vals e = Inr e' \<longrightarrow>
      (\<exists>r. tbl_reading_progress e' = tbl_reading_progress e @ [r] \<and>
           created_at r = created_at (vals (default_reading_progress now gen)))) \<and>
   (\<forall>e'. insert_reading_sessions ri now gen vals' e = Inr e' \<longrightarrow>
      (\<exists>r. tbl_reading_sessions e' = tbl_reading_sessions e @ [r] \<and>
           created_at r = created_at (vals' (default_reading_sessions now gen)))) \<and>
   (\<forall>d'. update_reading_progress rl now wh st d = Inr d' \<longrightarrow>
      list_all2
        (\<lambda>r r'. if wh r \<and> permits rl SELECT r \<and> permits rl UPDATE r
                 then updated_at r' = Some now \<and> created_at r' = created_at (st r)
                 else r' = r)
        (tbl_reading_progress d) (tbl_reading_progress d') \<and>
      ((\<forall>r. created_at (st r) = created_at r) \<longrightarrow>
         map created_at (tbl_reading_progress d') = map created_at (tbl_reading_progress d))) \<and>
   (\<forall>d'. update_reading_sessions rl now wh' st' d = Inr d' \<longrightarrow>
      list_all2
        (\<lambda>r r'. if wh' r \<and> permits rl SELECT r \<and> permits rl UPDATE r
                 then updated_at r' = Some now \<and> created_at r' = created_at (st' r)
                 else r' = r)
        (tbl_reading_sessions d) (tbl_reading_sessions d') \<and>
      ((\<forall>r. created_at (st' r) = created_at r) \<longrightarrow>
         map created_at (tbl_reading_sessions d') = map created_at (tbl_reading_sessions d)))"
proof -
  have A: "updated_at (update_updated_at_column now NEW) = Some now \<and>
   created_at (update_updated_at_column now NEW) = created_at NEW"
    by (simp add: update_updated_at_column_def)
  have B: "created_at (default_reading_progress now gen) = Some now \<and>
   created_at (default_reading_sessions now gen) = Some now"
    by (simp add: default_reading_progress_def default_reading_sessions_def)
  have I: "\<exists>r. tbl_reading_progress e' = tbl_reading_progress e @ [r] \<and>
           created_at r = created_at (vals (default_reading_progress now gen))"
    if "insert_reading_progress ri now gen vals e = Inr e'" for e'
  proof -
    from that obtain rows where
      i: "insert_rows ri coerce_reading_progress not_null_reading_progress conflict_reading_progress
            (users e) (books e) (vals (default_reading_progress now gen)) (tbl_reading_progress e) = Inr rows"
      and e': "e' = e\<lparr>tbl_reading_progress := rows\<rparr>"
      by (auto simp: insert_reading_progress_def split: sum.splits)
    from insert_rows_Inr [OF i] obtain r where
      "coerce_reading_progress (vals (default_reading_progress now gen)) = Inr r"
      "rows = tbl_reading_progress e @ [r]" by blast
    with e' show ?thesis by (auto dest!: coerce_reading_progress_Inr)
  qed
  have J: "\<exists>r. tbl_reading_sessions e' = tbl_reading_sessions e @ [r] \<and>
           created_at r = created_at (vals' (default_reading_sessions now gen))"
    if "insert_reading_sessions ri now gen vals' e = Inr e'" for e'
  proof -
    from that obtain rows where
      i: "insert_rows ri coerce_reading_sessions not_null_reading_sessions conflict_reading_sessions
            (users e) (books e) (vals' (default_reading_sessions now gen)) (tbl_reading_sessions e) = Inr rows"
      and e': "e' = e\<lparr>tbl_reading_sessions := rows\<rparr>"
      by (auto simp: insert_reading_sessions_def split: sum.splits)
    from insert_rows_Inr [OF i] obtain r where
      "coerce_reading_sessions (vals' (default_reading_sessions now gen)) = Inr r"
      "rows = tbl_reading_sessions e @ [r]" by blast
    with e' show ?thesis by (auto dest!: coerce_reading_sessions_Inr)
  qed
  have C: "list_all2
        (\<lambda>r r'. if wh r \<and> permits rl SELECT r \<and> permits rl UPDATE r
                 then updated_at r' = Some now \<and> created_at r' = created_at (st r)
                 else r' = r)
        (tbl_reading_progress d) (tbl_reading_progress d')"
    if "update_reading_progress rl now wh st d = Inr d'" for d'
    by (rule list_all2_mono [OF update_reading_progress_effect [OF that]])
      (auto split: if_splits)
  have C': "map created_at (tbl_reading_progress d') = map created_at (tbl_reading_progress d)"
    if u: "update_reading_progress rl now wh st d = Inr d'"
      and k: "\<forall>r. created_at (st r) = created_at r" for d'
  proof (rule list_all2_same_image)
    show "list_all2 (\<lambda>r r'. created_at r' = created_at r)
        (tbl_reading_progress d) (tbl_reading_progress d')"
      by (rule list_all2_mono [OF C [OF u]]) (use k in \<open>auto split: if_splits\<close>)
  qed
  have D: "list_all2
        (\<lambda>r r'. if wh' r \<and> permits rl SELECT r \<and> permits rl UPDATE r
                 then updated_at r' = Some now \<and> created_at r' = created_at (st' r)
                 else r' = r)
        (tbl_reading_sessions d) (tbl_reading_sessions d')"
    if "update_reading_sessions rl now wh' st' d = Inr d'" for d'
    by (rule list_all2_mono [OF update_reading_sessions_effect [OF that]])
      (auto split: if_splits)
  have D': "map created_at (tbl_reading_sessions d') = map created_at (tbl_reading_sessions d)"
    if u: "update_reading_sessions rl now wh' st' d = Inr d'"
      and k: "\<forall>r. created_at (st' r) = created_at r" for d'
  proof (rule list_all2_same_image)
    show "list_all2 (\<lambda>r r'. created_at r' = created_at r)
        (tbl_reading_sessions d) (tbl_reading_sessions d')"
      by (rule list_all2_mono [OF D [OF u]]) (use k in \<open>auto split: if_splits\<close>)
  qed
  show ?thesis
    apply (intro conjI allI impI)
    using A B apply simp_all[4]
         apply (erule I)
        apply (erule J)
       apply (erule C)
      apply (erule (1) C')
     apply (erule D)
    apply (erule (1) D')
    done
qed

theorem updated_at_refreshed_on_update_witness:
  "updated_at (set_updated_at (Some 0) (hd (tbl_reading_progress library))) = Some 0 \<and>
   update_reading_progress (Subject (Some 1)) 9 all_rows (set_updated_at (Some 0)) library =
     Inr (library\<lparr>tbl_reading_progress :=
            [(hd (tbl_reading_progress library))\<lparr>updated_at := Some 9\<rparr>]\<rparr>) \<and>
   update_reading_sessions (Subject (Some 1)) 9 all_rows (set_updated_at (Some 0)) library =
     Inr (library\<lparr>tbl_reading_sessions :=
            [(hd (tbl_reading_sessions library))\<lparr>updated_at := Some 9\<rparr>,
             last (tbl_reading_sessions library)]\<rparr>) \<and>
   created_at (hd (tbl_reading_progress library)) = Some 5 \<and>
   list_all2 (\<lambda>r r'. updated_at r' = Some 9 \<and> created_at r' = Some 5)
     (tbl_reading_progress library)
     [(hd (tbl_reading_progress library))\<lparr>updated_at := Some 9\<rparr>] \<and>
   map created_at (tbl_reading_progress (library\<lparr>tbl_reading_progress :=
            [(hd (tbl_reading_progress library))\<lparr>updated_at := Some 9\<rparr>]\<rparr>)) =
     map created_at (tbl_reading_progress library) \<and>
   map created_at (tbl_reading_sessions (library\<lparr>tbl_reading_sessions :=
            [(hd (tbl_reading_sessions library))\<lparr>updated_at := Some 9\<rparr>,
             last (tbl_reading_sessions library)]\<rparr>)) =
     map created_at (tbl_reading_sessions library) \<and>
   insert_reading_progress (Subject (Some 1)) 9 10 (progress_cols (Some 1) (Some 1) (Some 200))
     (run two_readers empty_db) =
     Inr ((run two_readers empty_db)\<lparr>tbl_reading_progress :=
            [progress_cols (Some 1) (Some 1) (Some 200) (default_reading_progress 9 10)]\<rparr>) \<and>
   (\<exists>r. tbl_reading_progress ((run two_readers empty_db)\<lparr>tbl_reading_progress :=
            [progress_cols (Some 1) (Some 1) (Some 200) (default_reading_progress 9 10)]\<rparr>) =
          tbl_reading_progress (run two_readers empty_db) @ [r] \<and>
        created_at r = created_at (progress_cols (Some 1) (Some 1) (Some 200) (default_reading_progress 9 10))) \<and>
   created_at (progress_cols (Some 1) (Some 1) (Some 200) (default_reading_progress 9 10)) = Some 9"
proof -
  note T = updated_at_refreshed_on_update [where now = 9 and rl = "Subject (Some 1)"
      and wh = all_rows and wh' = all_rows and st = "set_updated_at (Some 0)"
      and st' = "set_updated_at (Some 0)" and d = library and ri = "Subject (Some 1)"
      and e = "run two_readers empty_db" and gen = 10
      and vals = "progress_cols (Some 1) (Some 1) (Some 200)"
      and vals' = "session_cols (Some 1) (Some 1) (Some 9)"]
  have 1: "updated_at (set_updated_at (Some 0) (hd (tbl_reading_progress library))) = Some 0"
    by (simp add: set_updated_at_def)
  have 2: "update_reading_progress (Subject (Some 1)) 9 all_rows (set_updated_at (Some 0)) library =
     Inr (library\<lparr>tbl_reading_progress :=
            [(hd (tbl_reading_progress library))\<lparr>updated_at := Some 9\<rparr>]\<rparr>)"
    by code_simp
  have 3: "update_reading_sessions (Subject (Some 1)) 9 all_rows (set_updated_at (Some 0)) library =
     Inr (library\<lparr>tbl_reading_sessions :=
            [(hd (tbl_reading_sessions library))\<lparr>updated_at := Some 9\<rparr>,
             last (tbl_reading_sessions library)]\<rparr>)"
    by code_simp
  have 4: "created_at (hd (tbl_reading_progress library)) = Some 5"
    by (simp add: library_def)
  have k: "\<forall>r :: reading_progress. created_at (set_updated_at (Some 0) r) = created_at r"
    and k': "\<forall>r :: reading_sessions. created_at (set_updated_at (Some 0) r) = created_at r"
    by (simp_all add: set_updated_at_def)
  note U = T [THEN conjunct2, THEN conjunct2, THEN conjunct2, THEN conjunct2, THEN conjunct2,
      THEN conjunct2, THEN conjunct1, THEN spec, THEN mp, OF 2]
  note V = T [THEN conjunct2, THEN conjunct2, THEN conjunct2, THEN conjunct2, THEN conjunct2,
      THEN conjunct2, THEN conjunct2, THEN spec, THEN mp, OF 3]
  from U [THEN conjunct1] have 5: "list_all2 (\<lambda>r r'. updated_at r' = Some 9 \<and> created_at r' = Some 5)
     (tbl_reading_progress library)
     [(hd (tbl_reading_progress library))\<lparr>updated_at := Some 9\<rparr>]"
    by (simp add: library_def all_rows_def sql_eq_def set_updated_at_def)
  note 6 = U [THEN conjunct2, THEN mp, OF k]
  note 7 = V [THEN conjunct2, THEN mp, OF k']
  have 8: "insert_reading_progress (Subject (Some 1)) 9 10 (progress_cols (Some 1) (Some 1) (Some 200))
     (run two_readers empty_db) =
     Inr ((run two_readers empty_db)\<lparr>tbl_reading_progress :=
            [progress_cols (Some 1) (Some 1) (Some 200) (default_reading_progress 9 10)]\<rparr>)"
    by code_simp
  note 9 = T [THEN conjunct2, THEN conjunct2, THEN conjunct2, THEN conjunct2, THEN conjunct1,
      THEN spec, THEN mp, OF 8]
  have 10: "created_at (progress_cols (Some 1) (Some 1) (Some 200) (default_reading_progress 9 10)) = Some 9"
    by (simp add: progress_cols_def default_reading_progress_def)
  show ?thesis
    apply (intro conjI)
             apply (rule 1)
            apply (rule 2)
           apply (rule 3)
          apply (rule 4)
         apply (rule 5)
        apply (rule 6)
       apply (rule 7)
      apply (rule 8)
     apply (rule 9)
    apply (rule 10)
    done
qed

subsection \<open>What an update may change\<close>

lemma update_table_user_id:
  assumes u: "update_table (Subject uid) now coerce nn cf us bs wh st rows = Inr rows'"
  shows "map user_id rows' = map user_id rows"
proof -
  let ?nv = "new_version (Subject uid) now coerce wh st"
  have "user_id (stored_version ?nv x) = user_id x" if x: "x \<in> set rows" for x
  proof (cases "?nv x")
    case (Inl e)
    then show ?thesis by (simp add: stored_version_def)
  next
    case (Inr y)
    show ?thesis
    proof (cases y)
      case None
      with Inr show ?thesis by (simp add: stored_version_def)
    next
      case (Some v)
      with Inr update_table_new [OF u x] have "permits (Subject uid) UPDATE v" by blast
      then have v: "user_id v = uid" by (auto simp only: permits_Subject_iff)
      from Inr Some have "permits (Subject uid) UPDATE x"
        by (auto dest: new_version_Some)
      then have "user_id x = uid" by (auto simp only: permits_Subject_iff)
      with v Inr Some show ?thesis by (simp add: stored_version_def)
    qed
  qed
  with update_table_rows [OF u] show ?thesis by simp
qed

text \<open>
  C10 (as stated, refuted for \<^verbatim>\<open>user_id\<close>).  In the state \<open>library\<close> user 1 owns a
  progress row and a session, and user 2 exists.  User 1's update of \<^verbatim>\<open>user_id\<close> to 2
  is refused on both tables: the \<^verbatim>\<open>UPDATE\<close> policies give only a \<^verbatim>\<open>USING\<close>
  expression, which PostgreSQL then also applies to the new row.
\<close>

theorem owner_changes_user_id_counterexample:
  "run reading_history empty_db = library \<and>
   2 \<in> users library \<and>
   map user_id (tbl_reading_progress library) = [Some 1] \<and>
   update_reading_progress (Subject (Some 1)) 9 all_rows (set_user_id (Some 2)) library =
     Inl insufficient_privilege \<and>
   update_reading_sessions (Subject (Some 1)) 9 all_rows (set_user_id (Some 2)) library =
     Inl insufficient_privilege"
proof -
  have 1: "2 \<in> users library" "map user_id (tbl_reading_progress library) = [Some 1]"
    by (simp_all add: library_def)
  have 2: "update_reading_progress (Subject (Some 1)) 9 all_rows (set_user_id (Some 2)) library =
     Inl insufficient_privilege"
    by code_simp
  have 3: "update_reading_sessions (Subject (Some 1)) 9 all_rows (set_user_id (Some 2)) library =
     Inl insufficient_privilege"
    by code_simp
  from run_reading_history 1 2 3 show ?thesis by simp
qed

text \<open>
  C10 (amended).  The trigger function changes \<^verbatim>\<open>updated_at\<close> and no other column of
  either table, and a successful \<^verbatim>\<open>UPDATE\<close> stores for each row it works on the row
  its \<^verbatim>\<open>SET\<close> clause \<open>st\<close> produced, with \<^verbatim>\<open>updated_at\<close> replaced (and
  \<^verbatim>\<open>progress\<close> rounded to its column type).  So the owner of a row can change its
  \<^verbatim>\<open>created_at\<close> and its \<^verbatim>\<open>book_id\<close>.  Not so \<^verbatim>\<open>user_id\<close>: an update by a
  policy-bound caller leaves the \<^verbatim>\<open>user_id\<close> of every row as it was, and only a role
  that bypasses row-level security changes it.
\<close>

theorem trigger_changes_only_updated_at:
  "id_col (update_updated_at_column now (r :: reading_progress)) = id_col r \<and>
   user_id (update_updated_at_column now r) = user_id r \<and>
   book_id (update_updated_at_column now r) = book_id r \<and>
   created_at (update_updated_at_column now r) = created_at r \<and>
   current_page (update_updated_at_column now r) = current_page r \<and>
   total_pages (update_updated_at_column now r) = total_pages r \<and>
   progress (update_updated_at_column now r) = progress r \<and>
   last_read_at (update_updated_at_column now r) = last_read_at r \<and>
   id_col (update_updated_at_column now (q :: reading_sessions)) = id_col q \<and>
   user_id (update_updated_at_column now q) = user_id q \<and>
   book_id (update_updated_at_column now q) = book_id q \<and>
   created_at (update_updated_at_column now q) = created_at q \<and>
   start_time (update_updated_at_column now q) = start_time q \<and>
   end_time (update_updated_at_column now q) = end_time q \<and>
   pages_read (update_updated_at_column now q) = pages_read q \<and>
   duration (update_updated_at_column now q) = duration q \<and>
   (\<forall>d'. update_reading_progress rl now wh st d = Inr d' \<longrightarrow>
      list_all2
        (\<lambda>r r'. if wh r \<and> permits rl SELECT r \<and> permits rl UPDATE r
                 then \<exists>p. numeric_5_2 (progress (st r)) = Inr p \<and>
                          r' = (st r)\<lparr>updated_at := Some now, progress := p\<rparr>
                 else r' = r)
        (tbl_reading_progress d) (tbl_reading_progress d')) \<and>
   (\<forall>d'. update_reading_sessions rl now wh' st' d = Inr d' \<longrightarrow>
      list_all2
        (\<lambda>r r'. if wh' r \<and> permits rl SELECT r \<and> permits rl UPDATE r
                 then r' = (st' r)\<lparr>updated_at := Some now\<rparr>
                 else r' = r)
        (tbl_reading_sessions d) (tbl_reading_sessions d')) \<and>
   (\<forall>d'. update_reading_progress (Subject uid) now wh st d = Inr d' \<longrightarrow>
      map user_id (tbl_reading_progress d') = map user_id (tbl_reading_progress d)) \<and>
   (\<forall>d'. update_reading_sessions (Subject uid) now wh' st' d = Inr d' \<longrightarrow>
      map user_id (tbl_reading_sessions d') = map user_id (tbl_reading_sessions d)) \<and>
   (\<exists>d'. update_reading_progress (Subject (Some 1)) 9 all_rows (set_created_at (Some 0)) library = Inr d' \<and>
      map created_at (tbl_reading_progress library) = [Some 5] \<and>
      map created_at (tbl_reading_progress d') = [Some 0]) \<and>
   (\<exists>d'. update_reading_progress (Subject (Some 1)) 9 all_rows (set_book_id (Some 2))
            (run [Insert_book 2] library) = Inr d' \<and>
      map book_id (tbl_reading_progress (run [Insert_book 2] library)) = [Some 1] \<and>
      map book_id (tbl_reading_progress d') = [Some 2]) \<and>
   (\<exists>d'. update_reading_progress Bypass_RLS 9 all_rows (set_user_id (Some 2)) library = Inr d' \<and>
      map user_id (tbl_reading_progress library) = [Some 1] \<and>
      map user_id (tbl_reading_progress d') = [Some 2])"
proof -
  have A: "id_col (update_updated_at_column now r) = id_col r \<and>
   user_id (update_updated_at_column now r) = user_id r \<and>
   book_id (update_updated_at_column now r) = book_id r \<and>
   created_at (update_updated_at_column now r) = created_at r \<and>
   current_page (update_updated_at_column now r) = current_page r \<and>
   total_pages (update_updated_at_column now r) = total_pages r \<and>
   progress (update_updated_at_column now r) = progress r \<and>
   last_read_at (update_updated_at_column now r) = last_read_at r"
    by (simp add: update_updated_at_column_def)
  have B: "id_col (update_updated_at_column now q) = id_col q \<and>
   user_id (update_updated_at_column now q) = user_id q \<and>
   book_id (update_updated_at_column now q) = book_id q \<and>
   created_at (update_updated_at_column now q) = created_at q \<and>
   start_time (update_updated_at_column now q) = start_time q \<and>
   end_time (update_updated_at_column now q) = end_time q \<and>
   pages_read (update_updated_at_column now q) = pages_read q \<and>
   duration (update_updated_at_column now q) = duration q"
    by (simp add: update_updated_at_column_def)
  have C: "map user_id (tbl_reading_progress d') = map user_id (tbl_reading_progress d)"
    if "update_reading_progress (Subject uid) now wh st d = Inr d'" for d'
  proof -
    from that obtain rows where
      u: "update_table (Subject uid) now coerce_reading_progress not_null_reading_progress
            conflict_reading_progress (users d) (books d) wh st (tbl_reading_progress d) = Inr rows"
      and d': "d' = d\<lparr>tbl_reading_progress := rows\<rparr>"
      by (auto simp: update_reading_progress_def split: sum.splits)
    from update_table_user_id [OF u] d' show ?thesis by simp
  qed
  have D: "map user_id (tbl_reading_sessions d') = map user_id (tbl_reading_sessions d)"
    if "update_reading_sessions (Subject uid) now wh' st' d = Inr d'" for d'
  proof -
    from that obtain rows where
      u: "update_table (Subject uid) now coerce_reading_sessions not_null_reading_sessions
            conflict_reading_sessions (users d) (books d) wh' st' (tbl_reading_sessions d) = Inr rows"
      and d': "d' = d\<lparr>tbl_reading_sessions := rows\<rparr>"
      by (auto simp: update_reading_sessions_def split: sum.splits)
    from update_table_user_id [OF u] d' show ?thesis by simp
  qed
  have e1: "update_reading_progress (Subject (Some 1)) 9 all_rows (set_created_at (Some 0)) library =
      Inr (library\<lparr>tbl_reading_progress :=
            [(hd (tbl_reading_progress library))\<lparr>created_at := Some 0, updated_at := Some 9\<rparr>]\<rparr>)"
    by code_simp
  have E: "\<exists>d'. update_reading_progress (Subject (Some 1)) 9 all_rows (set_created_at (Some 0)) library = Inr d' \<and>
      map created_at (tbl_reading_progress library) = [Some 5] \<and>
      map created_at (tbl_reading_progress d') = [Some 0]"
    unfolding e1 by (simp add: library_def)
  have f1: "update_reading_progress (Subject (Some 1)) 9 all_rows (set_book_id (Some 2))
            (run [Insert_book 2] library) =
      Inr ((run [Insert_book 2] library)\<lparr>tbl_reading_progress :=
            [(hd (tbl_reading_progress library))\<lparr>book_id := Some 2, updated_at := Some 9\<rparr>]\<rparr>)"
    by code_simp
  have f2: "map book_id (tbl_reading_progress (run [Insert_book 2] library)) = [Some 1]"
    by code_simp
  have F: "\<exists>d'. update_reading_progress (Subject (Some 1)) 9 all_rows (set_book_id (Some 2))
            (run [Insert_book 2] library) = Inr d' \<and>
      map book_id (tbl_reading_progress (run [Insert_book 2] library)) = [Some 1] \<and>
      map book_id (tbl_reading_progress d') = [Some 2]"
    unfolding f1 using f2 by simp
  have g1: "update_reading_progress Bypass_RLS 9 all_rows (set_user_id (Some 2)) library =
      Inr (library\<lparr>tbl_reading_progress :=
            [(hd (tbl_reading_progress library))\<lparr>user_id := Some 2, updated_at := Some 9\<rparr>]\<rparr>)"
    by code_simp
  have G: "\<exists>d'. update_reading_progress Bypass_RLS 9 all_rows (set_user_id (Some 2)) library = Inr d' \<and>
      map user_id (tbl_reading_progress library) = [Some 1] \<and>
      map user_id (tbl_reading_progress d') = [Some 2]"
    unfolding g1 by (simp add: library_def)
  show ?thesis
    apply (intro conjI allI impI)
    using A B apply simp_all[16]
         apply (erule update_reading_progress_effect)
        apply (erule update_reading_sessions_effect)
       apply (erule C)
      apply (erule D)
     apply (rule E)
    apply (rule F)
    apply (rule G)
    done
qed

theorem trigger_changes_only_updated_at_witness:
  "update_reading_progress (Subject (Some 1)) 9 all_rows (set_created_at (Some 0)) library =
      Inr (library\<lparr>tbl_reading_progress :=
            [(hd (tbl_reading_progress library))\<lparr>created_at := Some 0, updated_at := Some 9\<rparr>]\<rparr>) \<and>
   update_reading_sessions (Subject (Some 1)) 9 all_rows (set_created_at (Some 0)) library =
      Inr (library\<lparr>tbl_reading_sessions :=
            [(hd (tbl_reading_sessions library))\<lparr>created_at := Some 0, updated_at := Some 9\<rparr>,
             last (tbl_reading_sessions library)]\<rparr>) \<and>
   map user_id (tbl_reading_progress (library\<lparr>tbl_reading_progress :=
            [(hd (tbl_reading_progress library))\<lparr>created_at := Some 0, updated_at := Some 9\<rparr>]\<rparr>)) =
     map user_id (tbl_reading_progress library) \<and>
   map user_id (tbl_reading_sessions (library\<lparr>tbl_reading_sessions :=
            [(hd (tbl_reading_sessions library))\<lparr>created_at := Some 0, updated_at := Some 9\<rparr>,
             last (tbl_reading_sessions library)]\<rparr>)) =
     map user_id (tbl_reading_sessions library) \<and>
   list_all2 (\<lambda>r r'. r' = r\<lparr>created_at := Some 0, updated_at := Some 9\<rparr>)
     (tbl_reading_progress library)
     [(hd (tbl_reading_progress library))\<lparr>created_at := Some 0, updated_at := Some 9\<rparr>]"
proof -
  note T = trigger_changes_only_updated_at [where now = 9 and rl = "Subject (Some 1)"
      and uid = "Some 1" and wh = all_rows and wh' = all_rows and st = "set_created_at (Some 0)"
      and st' = "set_created_at (Some 0)" and d = library]
  have 1: "update_reading_progress (Subject (Some 1)) 9 all_rows (set_created_at (Some 0)) library =
      Inr (library\<lparr>tbl_reading_progress :=
            [(hd (tbl_reading_progress library))\<lparr>created_at := Some 0, updated_at := Some 9\<rparr>]\<rparr>)"
    by code_simp
  have 2: "update_reading_sessions (Subject (Some 1)) 9 all_rows (set_created_at (Some 0)) library =
      Inr (library\<lparr>tbl_reading_sessions :=
            [(hd (tbl_reading_sessions library))\<lparr>created_at := Some 0, updated_at := Some 9\<rparr>,
             last (tbl_reading_sessions library)]\<rparr>)"
    by code_simp
  from T 1 have 3: "map user_id (tbl_reading_progress (library\<lparr>tbl_reading_progress :=
            [(hd (tbl_reading_progress library))\<lparr>created_at := Some 0, updated_at := Some 9\<rparr>]\<rparr>)) =
     map user_id (tbl_reading_progress library)"
    by blast
  from T 2 have 4: "map user_id (tbl_reading_sessions (library\<lparr>tbl_reading_sessions :=
            [(hd (tbl_reading_sessions library))\<lparr>created_at := Some 0, updated_at := Some 9\<rparr>,
             last (tbl_reading_sessions library)]\<rparr>)) =
     map user_id (tbl_reading_sessions library)"
    by blast
  have 5: "list_all2 (\<lambda>r r'. r' = r\<lparr>created_at := Some 0, updated_at := Some 9\<rparr>)
     (tbl_reading_progress library)
     [(hd (tbl_reading_progress library))\<lparr>created_at := Some 0, updated_at := Some 9\<rparr>]"
    by (simp add: library_def)
  from 1 2 3 4 5 show ?thesis by blast
qed

subsection \<open>Rounding\<close>

lemma round_half_away_bounds:
  assumes "0 \<le> q" "q \<le> of_int n"
  shows "0 \<le> round_half_away q \<and> round_half_away q \<le> n"
proof -
  from assms(1) have "0 \<le> \<lfloor>q + 1 / 2\<rfloor>" by simp
  moreover from assms(2) have "q + 1 / 2 < of_int (n + 1)" by simp
  then have "\<lfloor>q + 1 / 2\<rfloor> < n + 1" by (simp only: floor_less_iff)
  ultimately show ?thesis using assms(1) by (simp add: round_half_away_def)
qed

lemma round_half_away_close: "\<bar>of_int (round_half_away q) - q\<bar> \<le> 1 / 2"
proof (cases "0 \<le> q")
  case True
  have "of_int \<lfloor>q + 1 / 2\<rfloor> \<le> q + 1 / 2" "q + 1 / 2 < of_int \<lfloor>q + 1 / 2\<rfloor> + 1"
    by linarith+
  then have "\<bar>of_int \<lfloor>q + 1 / 2\<rfloor> - q\<bar> \<le> 1 / 2" by linarith
  with True show ?thesis by (simp only: round_half_away_def if_True)
next
  case False
  have "of_int \<lfloor>- q + 1 / 2\<rfloor> \<le> - q + 1 / 2" "- q + 1 / 2 < of_int \<lfloor>- q + 1 / 2\<rfloor> + 1"
    by linarith+
  then have "\<bar>- of_int \<lfloor>- q + 1 / 2\<rfloor> - q\<bar> \<le> 1 / 2" by linarith
  with False show ?thesis by (simp only: round_half_away_def if_False of_int_minus)
qed

lemma percent_facts:
  assumes "0 < tp" "0 \<le> cp" "cp \<le> tp"
  shows "percent cp tp = round2 (of_int cp / of_int tp * 100)"
    and "0 \<le> percent cp tp" and "percent cp tp \<le> 100"
    and "\<bar>percent cp tp - of_int cp / of_int tp * 100\<bar> \<le> 1 / 200"
    and "numeric_5_2 (Some (percent cp tp)) = Inr (Some (percent cp tp))"
proof -
  define x :: rat where "x = of_int cp / of_int tp * 100"
  define h where "h = round_half_away (x * 100)"
  from assms have x0: "0 \<le> x" by (simp add: x_def)
  from assms have "(of_int cp :: rat) \<le> of_int tp" by simp
  with assms(1) have "(of_int cp / of_int tp :: rat) \<le> 1" by (simp add: divide_le_eq_1)
  then have "of_int cp / of_int tp * (100 :: rat) \<le> 1 * 100"
    by (rule mult_right_mono) simp
  then have x1: "x \<le> 100" by (simp add: x_def)
  from x0 have "0 \<le> x * 100" by simp
  moreover from x1 have "x * 100 \<le> of_int 10000" by simp
  ultimately have h: "0 \<le> h" "h \<le> 10000"
    using round_half_away_bounds [of "x * 100" 10000] unfolding h_def by blast+
  have r2: "round2 x = of_int h / 100" by (simp add: round2_def h_def)
  from h have r: "0 \<le> round2 x" "round2 x \<le> 100"
    unfolding r2 by simp_all
  then have p: "percent cp tp = round2 x" by (simp add: percent_def x_def)
  then show "percent cp tp = round2 (of_int cp / of_int tp * 100)" by (simp add: x_def)
  from r p show "0 \<le> percent cp tp" "percent cp tp \<le> 100" by simp_all
  have "\<bar>of_int h - x * 100\<bar> \<le> 1 / 2" unfolding h_def by (rule round_half_away_close)
  then have "\<bar>of_int h / 100 - x\<bar> \<le> 1 / 200" by linarith
  moreover from p r2 have "percent cp tp = of_int h / 100" by (rule trans)
  ultimately have "\<bar>percent cp tp - x\<bar> \<le> 1 / 200" by (simp only:)
  then show "\<bar>percent cp tp - of_int cp / of_int tp * 100\<bar> \<le> 1 / 200"
    unfolding x_def .
  from h have "\<bar>h\<bar> < 100000" by simp
  from numeric_5_2_hundredths [OF this] p r2 show
    "numeric_5_2 (Some (percent cp tp)) = Inr (Some (percent cp tp))"
    by (simp only:)
qed

subsection \<open>An update that keeps the keys succeeds\<close>

lemma update_rows_keys:
  assumes sym: "\<And>a b. cf a b \<Longrightarrow> cf b a"
    and key: "\<And>r v z. nv r = Inr (Some v) \<Longrightarrow> cf v z = cf r z"
  shows "\<forall>r \<in> set todo. \<exists>x. nv r = Inr x \<and> (\<forall>v. x = Some v \<longrightarrow> permits rl UPDATE v \<and> nn v) \<Longrightarrow>
         unique_index cf (done @ todo) \<Longrightarrow>
         \<exists>news. update_rows nv (store_checks rl UPDATE nn cf) done new todo =
                  Inr (done @ map (stored_version nv) todo, news)"
proof (induction todo arbitrary: "done" new)
  case Nil
  then show ?case by simp
next
  case (Cons r todo)
  from Cons.prems(1) obtain x where x: "nv r = Inr x"
    and ok: "\<forall>v. x = Some v \<longrightarrow> permits rl UPDATE v \<and> nn v" by auto
  from Cons.prems(1) have rest:
    "\<forall>r \<in> set todo. \<exists>x. nv r = Inr x \<and> (\<forall>v. x = Some v \<longrightarrow> permits rl UPDATE v \<and> nn v)"
    by simp
  from Cons.prems(2) have nc: "\<forall>z \<in> set done \<union> set todo. \<not> cf r z"
    using sym by (auto simp: unique_index_def sorted_wrt_append)
  show ?case
  proof (cases x)
    case None
    from Cons.prems(2) have "unique_index cf ((done @ [r]) @ todo)" by simp
    from Cons.IH [OF rest this, of new] x None show ?thesis
      by (simp add: stored_version_def)
  next
    case (Some v)
    from key [of r v] x Some have k: "\<And>z. cf v z = cf r z" by simp
    with nc have nv': "\<not> list_ex (cf v) (done @ todo)" by (simp add: list_ex_iff)
    with ok Some have c: "store_checks rl UPDATE nn cf (done @ todo) v = Inr v"
      by (simp add: store_checks_def)
    have "\<And>z. cf z v = cf z r" using k sym by blast
    with Cons.prems(2) k have "unique_index cf ((done @ [v]) @ todo)"
      by (simp add: unique_index_def sorted_wrt_append)
    from Cons.IH [OF rest this, of "new @ [v]"] x Some c show ?thesis
      by (simp add: stored_version_def)
  qed
qed

lemma update_table_keys:
  assumes sym: "\<And>a b. cf a b \<Longrightarrow> cf b a"
    and key: "\<And>r v z. new_version rl now coerce wh st r = Inr (Some v) \<Longrightarrow> cf v z = cf r z"
    and ok: "\<forall>r \<in> set rows. \<exists>x. new_version rl now coerce wh st r = Inr x \<and>
               (\<forall>v. x = Some v \<longrightarrow> permits rl UPDATE v \<and> nn v \<and> fk_ok us bs v)"
    and un: "unique_index cf rows"
  shows "update_table rl now coerce nn cf us bs wh st rows =
           Inr (map (stored_version (new_version rl now coerce wh st)) rows)"
proof -
  let ?nv = "new_version rl now coerce wh st"
  from ok have ok': "\<forall>r \<in> set rows. \<exists>x. ?nv r = Inr x \<and>
               (\<forall>v. x = Some v \<longrightarrow> permits rl UPDATE v \<and> nn v)"
    by blast
  from un have un': "unique_index cf ([] @ rows)" by simp
  from update_rows_keys [of cf ?nv rows rl nn "[]" "[]", OF sym key ok' un']
  obtain news where u: "update_rows ?nv (store_checks rl UPDATE nn cf) [] [] rows =
                  Inr (map (stored_version ?nv) rows, news)"
    by auto
  have "\<And>others v v'. store_checks rl UPDATE nn cf others v = Inr v' \<Longrightarrow> v' = v"
    by (simp add: store_checks_Inr)
  from update_rows_result [of "store_checks rl UPDATE nn cf", OF this u]
  have "news = List.map_filter (\<lambda>r. case ?nv r of Inr x \<Rightarrow> x | Inl e \<Rightarrow> None) rows"
    by simp
  with ok have "list_all (fk_ok us bs) news"
    by (fastforce simp: list_all_iff List.map_filter_def)
  with u show ?thesis by (simp add: update_table_def)
qed

subsection \<open>A report by the owner\<close>

lemma coerce_report_insert:
  assumes "0 < tp" "tp \<le> 2147483647" "0 \<le> cp" "cp \<le> tp"
  shows "coerce_reading_progress (report_insert u b cp (Some tp) (percent cp tp) r) =
           Inr (report_insert u b cp (Some tp) (percent cp tp) r)"
  using assms percent_facts(5) [OF assms(1,3,4)]
  by (simp add: coerce_reading_progress_def report_insert_def int4_ok_def)

lemma coerce_report_update:
  assumes "0 < tp" "tp \<le> 2147483647" "0 \<le> cp" "cp \<le> tp"
  shows "coerce_reading_progress (report_update cp (Some tp) (percent cp tp) now r) =
           Inr (report_update cp (Some tp) (percent cp tp) now r)"
  using assms percent_facts(5) [OF assms(1,3,4)]
  by (simp add: coerce_reading_progress_def report_update_def int4_ok_def)

lemma report_insert_ok:
  assumes tp: "0 < tp" "tp \<le> 2147483647" and cp: "0 \<le> cp" "cp \<le> tp"
    and u: "u \<in> users d" and b: "b \<in> books d"
    and fresh: "\<forall>r \<in> set (tbl_reading_progress d). id_col r \<noteq> Some gen"
    and none: "filter (for_pair u b) (tbl_reading_progress d) = []"
  shows "insert_reading_progress (Subject (Some u)) now gen
           (report_insert u b cp (Some tp) (percent cp tp)) d =
         Inr (d\<lparr>tbl_reading_progress := tbl_reading_progress d @
                [report_insert u b cp (Some tp) (percent cp tp) (default_reading_progress now gen)]\<rparr>)"
proof -
  let ?r = "report_insert u b cp (Some tp) (percent cp tp) (default_reading_progress now gen)"
  have 1: "coerce_reading_progress ?r = Inr ?r"
    by (rule coerce_report_insert [OF tp cp])
  have 2: "permits (Subject (Some u)) INSERT ?r"
    by (simp add: sql_eq_def report_insert_def)
  have 3: "not_null_reading_progress ?r"
    by (simp add: not_null_reading_progress_def report_insert_def default_reading_progress_def)
  from none have "\<forall>r \<in> set (tbl_reading_progress d). \<not> for_pair u b r"
    by (simp add: filter_empty_conv)
  with fresh have 4: "\<not> list_ex (conflict_reading_progress ?r) (tbl_reading_progress d)"
    by (auto simp: list_ex_iff conflict_reading_progress_def same_id_def same_user_book_def
        for_pair_iff report_insert_def default_reading_progress_def split: option.splits)
  have 5: "fk_ok (users d) (books d) ?r"
    using u b by (simp add: fk_ok_def report_insert_def)
  have "insert_rows (Subject (Some u)) coerce_reading_progress not_null_reading_progress
            conflict_reading_progress (users d) (books d) ?r (tbl_reading_progress d)
          = Inr (tbl_reading_progress d @ [?r])"
    using 1 2 3 4 5 by (rule insert_rows_ok)
  then show ?thesis by (simp add: insert_reading_progress_def)
qed

lemma report_update_ok:
  assumes tp: "0 < tp" "tp \<le> 2147483647" and cp: "0 \<le> cp" "cp \<le> tp"
    and u: "u \<in> users d" and b: "b \<in> books d"
    and un: "inv_unique d" and cols: "inv_cols d"
  shows "update_reading_progress (Subject (Some u)) now (for_pair u b)
           (report_update cp (Some tp) (percent cp tp) now) d =
         Inr (d\<lparr>tbl_reading_progress :=
                map (\<lambda>r. if for_pair u b r
                          then (report_update cp (Some tp) (percent cp tp) now r)\<lparr>updated_at := Some now\<rparr>
                          else r)
                  (tbl_reading_progress d)\<rparr>)"
proof -
  let ?st = "report_update cp (Some tp) (percent cp tp) now"
  let ?nv = "new_version (Subject (Some u)) now coerce_reading_progress (for_pair u b) ?st"
  have nv: "?nv r = (if for_pair u b r then Inr (Some ((?st r)\<lparr>updated_at := Some now\<rparr>)) else Inr None)"
    for r
    using coerce_report_update [OF tp cp, of now r]
    by (auto simp: new_version_def for_pair_iff sql_eq_def update_updated_at_column_def)
  have sv: "stored_version ?nv r = (if for_pair u b r then (?st r)\<lparr>updated_at := Some now\<rparr> else r)"
    for r
    by (simp add: stored_version_def nv)
  have key: "conflict_reading_progress v z = conflict_reading_progress r z"
    if "?nv r = Inr (Some v)" for r v z
  proof -
    from that have "id_col v = id_col r \<and> user_id v = user_id r \<and> book_id v = book_id r"
      by (auto simp: nv report_update_def split: if_splits)
    then show ?thesis
      by (simp add: conflict_reading_progress_def same_id_def same_user_book_def)
  qed
  have ok: "\<forall>r \<in> set (tbl_reading_progress d). \<exists>x. ?nv r = Inr x \<and>
               (\<forall>v. x = Some v \<longrightarrow> permits (Subject (Some u)) UPDATE v \<and>
                  not_null_reading_progress v \<and> fk_ok (users d) (books d) v)"
  proof
    fix r assume r: "r \<in> set (tbl_reading_progress d)"
    with cols have "id_col r \<noteq> None"
      by (auto simp: inv_cols_def list_all_iff cols_reading_progress_def not_null_reading_progress_def)
    with u b show "\<exists>x. ?nv r = Inr x \<and>
               (\<forall>v. x = Some v \<longrightarrow> permits (Subject (Some u)) UPDATE v \<and>
                  not_null_reading_progress v \<and> fk_ok (users d) (books d) v)"
      by (auto simp: nv for_pair_iff sql_eq_def not_null_reading_progress_def fk_ok_def
          report_update_def)
  qed
  from un have un': "unique_index conflict_reading_progress (tbl_reading_progress d)"
    by (simp add: inv_unique_def)
  have "update_table (Subject (Some u)) now coerce_reading_progress not_null_reading_progress
          conflict_reading_progress (users d) (books d) (for_pair u b) ?st (tbl_reading_progress d)
        = Inr (map (stored_version ?nv) (tbl_reading_progress d))"
    using conflict_reading_progress_sym key ok un' by (rule update_table_keys)
  then show ?thesis
    by (simp add: update_reading_progress_def sv [abs_def])
qed

lemma clamp_range: "0 \<le> tp \<Longrightarrow> 0 \<le> clamp cp 0 tp \<and> clamp cp 0 tp \<le> tp"
  by (simp add: clamp_def)

subsection \<open>The stored percentage\<close>

text \<open>
  C3.  Let the database be reachable, the user and the book exist, \<open>total_pages\<close> be
  positive (and an \<^verbatim>\<open>INTEGER\<close>), the caller be the user, and the identifier drawn for
  a possible new row be fresh.  Then \<open>reportProgress\<close> succeeds, and afterwards the pair
  has exactly one row, which holds \<open>current_page\<close> clamped to \<open>[0, total_pages]\<close>,
  \<open>total_pages\<close>, and as \<open>progress\<close> the percentage of the clamped page rounded to two
  decimals: a multiple of 0.01 in \<open>[0, 100]\<close>, at most 0.005 away from the exact
  quotient, stored by the \<^verbatim>\<open>DECIMAL(5,2)\<close> column unchanged.  For page 50 of 200 the
  progress is 25; page 250 of 200 is clamped to 200 and the progress is 100.
\<close>

theorem reportProgress_stores_clamped_percentage:
  assumes "0 < tp" and "tp \<le> 2147483647"
    and "d = reports rs (run ss empty_db)"
    and "u \<in> users d" and "b \<in> books d"
    and "\<forall>r \<in> set (tbl_reading_progress d). id_col r \<noteq> Some gen"
  shows "\<exists>d' r. reportProgress (Subject (Some u)) strict now gen u b cp (Some tp) d = Inr d' \<and>
           filter (for_pair u b) (tbl_reading_progress d') = [r] \<and>
           current_page r = Some (clamp cp 0 tp) \<and>
           total_pages r = Some tp \<and>
           progress r = Some (percent (clamp cp 0 tp) tp) \<and>
           last_read_at r = Some now \<and>
           percent (clamp cp 0 tp) tp = round2 (of_int (clamp cp 0 tp) / of_int tp * 100) \<and>
           0 \<le> percent (clamp cp 0 tp) tp \<and> percent (clamp cp 0 tp) tp \<le> 100 \<and>
           \<bar>percent (clamp cp 0 tp) tp - of_int (clamp cp 0 tp) / of_int tp * 100\<bar> \<le> 1 / 200 \<and>
           percent (clamp 50 0 200) 200 = 25 \<and>
           clamp 250 0 200 = 200 \<and> percent (clamp 250 0 200) 200 = 100"
proof -
  let ?cp = "clamp cp 0 tp"
  let ?p = "percent ?cp tp"
  from assms(1) have cp: "0 \<le> ?cp" "?cp \<le> tp"
    using clamp_range [of tp cp] by simp_all
  note P = percent_facts [OF assms(1) cp]
  obtain ss' where d: "d = run ss' empty_db"
    using reports_run assms(3) by blast
  have un: "inv_unique d" unfolding d by (rule run_inv_unique [OF inv_unique_empty])
  have cols: "inv_cols d" unfolding d by (rule run_inv_cols [OF inv_cols_empty])
  have sel: "select_reading_progress (Subject (Some u)) (for_pair u b) d =
      Inr (filter (for_pair u b) (tbl_reading_progress d))"
  proof -
    have "filter (\<lambda>r. user_id r = Some u \<and> for_pair u b r) (tbl_reading_progress d) =
        filter (for_pair u b) (tbl_reading_progress d)"
      by (rule filter_cong) (auto simp: for_pair_iff)
    then show ?thesis
      by (simp only: select_reading_progress_def select_rows_Subject)
  qed
  have rp: "reportProgress (Subject (Some u)) strict now gen u b cp (Some tp) d =
      (case filter (for_pair u b) (tbl_reading_progress d) of
         [] \<Rightarrow> insert_reading_progress (Subject (Some u)) now gen (report_insert u b ?cp (Some tp) ?p) d
       | x # xs \<Rightarrow> update_reading_progress (Subject (Some u)) now (for_pair u b)
                     (report_update ?cp (Some tp) ?p now) d)"
    using assms(1) by (simp add: reportProgress_def sel Let_def)
  have ex: "\<exists>d' r. reportProgress (Subject (Some u)) strict now gen u b cp (Some tp) d = Inr d' \<and>
           filter (for_pair u b) (tbl_reading_progress d') = [r] \<and>
           current_page r = Some ?cp \<and> total_pages r = Some tp \<and> progress r = Some ?p \<and>
           last_read_at r = Some now"
  proof (cases "filter (for_pair u b) (tbl_reading_progress d)")
    case Nil
    let ?r = "report_insert u b ?cp (Some tp) ?p (default_reading_progress now gen)"
    from report_insert_ok [OF assms(1,2) cp assms(4,5,6) Nil, of now] rp Nil
    have "reportProgress (Subject (Some u)) strict now gen u b cp (Some tp) d =
        Inr (d\<lparr>tbl_reading_progress := tbl_reading_progress d @ [?r]\<rparr>)"
      by simp
    moreover have "for_pair u b ?r"
      by (simp add: for_pair_iff report_insert_def)
    with Nil have "filter (for_pair u b)
        (tbl_reading_progress (d\<lparr>tbl_reading_progress := tbl_reading_progress d @ [?r]\<rparr>)) = [?r]"
      by simp
    moreover have "current_page ?r = Some ?cp \<and> total_pages ?r = Some tp \<and> progress ?r = Some ?p \<and>
        last_read_at ?r = Some now"
      by (simp add: report_insert_def default_reading_progress_def)
    ultimately show ?thesis by blast
  next
    case (Cons x xs)
    let ?f = "\<lambda>r. if for_pair u b r
                then (report_update ?cp (Some tp) ?p now r)\<lparr>updated_at := Some now\<rparr> else r"
    from un have "length (filter (for_pair u b) (tbl_reading_progress d)) \<le> 1"
      unfolding inv_unique_def by (rule unique_index_at_most_one)
    with Cons have one: "filter (for_pair u b) (tbl_reading_progress d) = [x]" by simp
    then have "x \<in> set (filter (for_pair u b) (tbl_reading_progress d))" by simp
    then have x: "for_pair u b x" by simp
    from report_update_ok [OF assms(1,2) cp assms(4,5) un cols, of now] rp Cons
    have "reportProgress (Subject (Some u)) strict now gen u b cp (Some tp) d =
        Inr (d\<lparr>tbl_reading_progress := map ?f (tbl_reading_progress d)\<rparr>)"
      by simp
    moreover have "for_pair u b (?f r) = for_pair u b r" for r
      by (simp add: for_pair_iff report_update_def)
    then have "filter (for_pair u b) (map ?f (tbl_reading_progress d)) =
        map ?f (filter (for_pair u b) (tbl_reading_progress d))"
      by (simp add: filter_map comp_def)
    with one x have "filter (for_pair u b)
        (tbl_reading_progress (d\<lparr>tbl_reading_progress := map ?f (tbl_reading_progress d)\<rparr>)) =
        [(report_update ?cp (Some tp) ?p now x)\<lparr>updated_at := Some now\<rparr>]"
      by simp
    moreover have "current_page ((report_update ?cp (Some tp) ?p now x)\<lparr>updated_at := Some now\<rparr>) = Some ?cp \<and>
        total_pages ((report_update ?cp (Some tp) ?p now x)\<lparr>updated_at := Some now\<rparr>) = Some tp \<and>
        progress ((report_update ?cp (Some tp) ?p now x)\<lparr>updated_at := Some now\<rparr>) = Some ?p \<and>
        last_read_at ((report_update ?cp (Some tp) ?p now x)\<lparr>updated_at := Some now\<rparr>) = Some now"
      by (simp add: report_update_def)
    ultimately show ?thesis by blast
  qed
  have c2: "clamp 250 0 200 = 200"
    by (simp add: clamp_def)
  have e1: "percent (clamp 50 0 200) 200 = 25"
    by code_simp
  have e2: "percent (clamp 250 0 200) 200 = 100"
    by code_simp
  from ex P(1-4) e1 c2 e2 show ?thesis by blast
qed

theorem reportProgress_stores_clamped_percentage_witness:
  "1 \<in> users (reports [] (run two_readers empty_db)) \<and>
   1 \<in> books (reports [] (run two_readers empty_db)) \<and>
   tbl_reading_progress (reports [] (run two_readers empty_db)) = [] \<and>
   (\<exists>d' r. reportProgress (Subject (Some 1)) False 5 10 1 1 50 (Some 200)
              (reports [] (run two_readers empty_db)) = Inr d' \<and>
           filter (for_pair 1 1) (tbl_reading_progress d') = [r] \<and>
           current_page r = Some 50 \<and> total_pages r = Some 200 \<and> progress r = Some 25) \<and>
   1 \<in> users (reports [first_report] (run two_readers empty_db)) \<and>
   1 \<in> books (reports [first_report] (run two_readers empty_db)) \<and>
   map id_col (tbl_reading_progress (reports [first_report] (run two_readers empty_db))) = [Some 10] \<and>
   (\<exists>d' r. reportProgress (Subject (Some 1)) False 7 11 1 1 250 (Some 200)
              (reports [first_report] (run two_readers empty_db)) = Inr d' \<and>
           filter (for_pair 1 1) (tbl_reading_progress d') = [r] \<and>
           current_page r = Some 200 \<and> total_pages r = Some 200 \<and> progress r = Some 100)"
proof -
  have a: "1 \<in> users (reports [] (run two_readers empty_db))"
    "1 \<in> books (reports [] (run two_readers empty_db))"
    "tbl_reading_progress (reports [] (run two_readers empty_db)) = []"
    by code_simp+
  from a(3) have af: "\<forall>r \<in> set (tbl_reading_progress (reports [] (run two_readers empty_db))).
      id_col r \<noteq> Some 10"
    by simp
  have c50: "clamp 50 0 200 = 50" by (simp add: clamp_def)
  from reportProgress_stores_clamped_percentage [where tp = 200 and cp = 50 and u = 1 and b = 1
      and rs = "[]" and ss = two_readers and gen = 10 and now = 5 and strict = False,
      OF _ _ refl a(1,2) af]
  have A: "\<exists>d' r. reportProgress (Subject (Some 1)) False 5 10 1 1 50 (Some 200)
              (reports [] (run two_readers empty_db)) = Inr d' \<and>
           filter (for_pair 1 1) (tbl_reading_progress d') = [r] \<and>
           current_page r = Some 50 \<and> total_pages r = Some 200 \<and> progress r = Some 25"
    unfolding c50 by simp metis
  have b: "1 \<in> users (reports [first_report] (run two_readers empty_db))"
    "1 \<in> books (reports [first_report] (run two_readers empty_db))"
    unfolding reported_eq by (simp_all add: reported_def)
  have bi: "map id_col (tbl_reading_progress (reports [first_report] (run two_readers empty_db))) = [Some 10]"
    unfolding reported_eq by (simp add: reported_def)
  have bf: "\<forall>r \<in> set (tbl_reading_progress (reports [first_report] (run two_readers empty_db))).
      id_col r \<noteq> Some 11"
    unfolding reported_eq by (simp add: reported_def)
  from reportProgress_stores_clamped_percentage [where tp = 200 and cp = 250 and u = 1 and b = 1
      and rs = "[first_report]" and ss = two_readers and gen = 11 and now = 7 and strict = False,
      OF _ _ refl b bf]
  have B: "\<exists>d' r. reportProgress (Subject (Some 1)) False 7 11 1 1 250 (Some 200)
              (reports [first_report] (run two_readers empty_db)) = Inr d' \<and>
           filter (for_pair 1 1) (tbl_reading_progress d') = [r] \<and>
           current_page r = Some 200 \<and> total_pages r = Some 200 \<and> progress r = Some 100"
    by simp metis
  from a A b bi B show ?thesis by blast
qed

subsection \<open>One progress row per user and book\<close>

lemma permits_SELECT_UPDATE: "permits rl UPDATE r = permits rl SELECT r"
  by (cases rl) simp_all

lemma list_all2_function: "list_all2 (\<lambda>x y. y = f x) xs ys \<Longrightarrow> ys = map f xs"
  by (induction rule: list_all2_induct) simp_all

text \<open>A report that succeeds on a pair with a row went through the update.\<close>

lemma reportProgress_existing_update:
  assumes rp: "reportProgress rl strict now gen u b page (Some tp) d = Inr d'"
    and ex: "filter (for_pair u b) (tbl_reading_progress d) \<noteq> []"
    and tp: "0 < tp"
  shows "update_reading_progress rl now (for_pair u b)
           (report_update (clamp page 0 tp) (Some tp) (percent (clamp page 0 tp) tp) now) d = Inr d' \<and>
         (\<exists>y \<in> set (tbl_reading_progress d). for_pair u b y \<and> permits rl SELECT y)"
proof -
  let ?cp = "clamp page 0 tp"
  let ?p = "percent ?cp tp"
  from rp tp have c: "(case filter (\<lambda>r. permits rl SELECT r \<and> for_pair u b r) (tbl_reading_progress d) of
         [] \<Rightarrow> insert_reading_progress rl now gen (report_insert u b ?cp (Some tp) ?p) d
       | x # xs \<Rightarrow> update_reading_progress rl now (for_pair u b) (report_update ?cp (Some tp) ?p now) d)
       = Inr d'"
    by (simp add: reportProgress_def Let_def select_reading_progress_def select_rows_def)
  show ?thesis
  proof (cases "filter (\<lambda>r. permits rl SELECT r \<and> for_pair u b r) (tbl_reading_progress d)")
    case Nil
    with c have i: "insert_reading_progress rl now gen (report_insert u b ?cp (Some tp) ?p) d = Inr d'"
      by simp
    then obtain rows where
      "insert_rows rl coerce_reading_progress not_null_reading_progress conflict_reading_progress
            (users d) (books d) (report_insert u b ?cp (Some tp) ?p (default_reading_progress now gen))
            (tbl_reading_progress d) = Inr rows"
      by (auto simp: insert_reading_progress_def split: sum.splits)
    from insert_rows_Inr [OF this] obtain r where
      co: "coerce_reading_progress (report_insert u b ?cp (Some tp) ?p (default_reading_progress now gen)) = Inr r"
      and nc: "\<not> list_ex (conflict_reading_progress r) (tbl_reading_progress d)" by blast
    from co have r: "user_id r = Some u" "book_id r = Some b"
      by (auto simp: report_insert_def dest!: coerce_reading_progress_Inr)
    from ex obtain x where x: "x \<in> set (tbl_reading_progress d)" "for_pair u b x"
      by (auto simp: filter_empty_conv)
    with r have "conflict_reading_progress r x"
      by (simp add: conflict_reading_progress_def same_user_book_def for_pair_iff)
    with nc x have False by (auto simp: list_ex_iff)
    then show ?thesis ..
  next
    case (Cons y ys)
    then have "y \<in> set (filter (\<lambda>r. permits rl SELECT r \<and> for_pair u b r) (tbl_reading_progress d))"
      by simp
    then have "y \<in> set (tbl_reading_progress d)" "for_pair u b y" "permits rl SELECT y" by simp_all
    with c Cons show ?thesis by auto
  qed
qed

text \<open>
  C1.  In every state reached by any history of statements followed by any sequence of
  progress reports, each pair of a non-null user and a non-null book has at most one
  row in \<^verbatim>\<open>reading_progress\<close>.  In such a state, let the pair have a row.  Then a
  report for the pair that succeeds leaves the table with the same rows by identity and
  one row for the pair; with a positive \<open>total_pages\<close> the table afterwards is the table
  before with the pair's row, and no other, overwritten in \<^verbatim>\<open>current_page\<close>,
  \<^verbatim>\<open>total_pages\<close>, \<^verbatim>\<open>progress\<close>, \<^verbatim>\<open>last_read_at\<close> and \<^verbatim>\<open>updated_at\<close> by the
  reported values, and nothing else of the database has changed; and the report of the
  pair's user does succeed, whenever \<open>total_pages\<close> is an \<^verbatim>\<open>INTEGER\<close>.
\<close>

theorem one_progress_row_per_user_book:
  "length (filter (for_pair u b) (tbl_reading_progress (reports rs (run ss empty_db)))) \<le> 1 \<and>
   (\<forall>d'. reportProgress rl strict now gen u b page pages (reports rs (run ss empty_db)) = Inr d' \<longrightarrow>
      filter (for_pair u b) (tbl_reading_progress (reports rs (run ss empty_db))) \<noteq> [] \<longrightarrow>
      map id_col (tbl_reading_progress d') =
        map id_col (tbl_reading_progress (reports rs (run ss empty_db))) \<and>
      length (filter (for_pair u b) (tbl_reading_progress d')) = 1) \<and>
   (filter (for_pair u b) (tbl_reading_progress (reports rs (run ss empty_db))) \<noteq> [] \<longrightarrow>
    0 < tp \<longrightarrow>
      (\<forall>d'. reportProgress rl strict now gen u b page (Some tp) (reports rs (run ss empty_db)) = Inr d' \<longrightarrow>
         d' = (reports rs (run ss empty_db))
                \<lparr>tbl_reading_progress :=
                   map (\<lambda>r. if for_pair u b r
                             then r\<lparr>current_page := Some (clamp page 0 tp), total_pages := Some tp,
                                    progress := Some (percent (clamp page 0 tp) tp),
                                    last_read_at := Some now, updated_at := Some now\<rparr>
                             else r)
                     (tbl_reading_progress (reports rs (run ss empty_db)))\<rparr>) \<and>
      (tp \<le> 2147483647 \<longrightarrow>
         reportProgress (Subject (Some u)) strict now gen u b page (Some tp) (reports rs (run ss empty_db)) =
           Inr ((reports rs (run ss empty_db))
                  \<lparr>tbl_reading_progress :=
                     map (\<lambda>r. if for_pair u b r
                               then r\<lparr>current_page := Some (clamp page 0 tp), total_pages := Some tp,
                                      progress := Some (percent (clamp page 0 tp) tp),
                                      last_read_at := Some now, updated_at := Some now\<rparr>
                               else r)
                       (tbl_reading_progress (reports rs (run ss empty_db)))\<rparr>)))"
proof -
  define D where "D = reports rs (run ss empty_db)"
  let ?cp = "clamp page 0 tp"
  let ?p = "percent ?cp tp"
  let ?f = "\<lambda>r. if for_pair u b r
                then r\<lparr>current_page := Some ?cp, total_pages := Some tp, progress := Some ?p,
                       last_read_at := Some now, updated_at := Some now\<rparr>
                else r"
  obtain ss' where s: "D = run ss' empty_db"
    using reports_run D_def by blast
  have un: "inv_unique D" unfolding s by (rule run_inv_unique [OF inv_unique_empty])
  have cols: "inv_cols D" unfolding s by (rule run_inv_cols [OF inv_cols_empty])
  have fk: "inv_fk D" unfolding s by (rule run_inv_fk [OF inv_fk_empty])
  from un have one: "length (filter (for_pair u b) (tbl_reading_progress D)) \<le> 1"
    unfolding inv_unique_def by (rule unique_index_at_most_one)
  have A: "map id_col (tbl_reading_progress d') = map id_col (tbl_reading_progress D) \<and>
        length (filter (for_pair u b) (tbl_reading_progress d')) = 1"
    if rp: "reportProgress rl strict now gen u b page pages D = Inr d'"
      and ex: "filter (for_pair u b) (tbl_reading_progress D) \<noteq> []" for d'
  proof -
    from ex have "length (filter (for_pair u b) (tbl_reading_progress D)) \<noteq> 0"
      by simp
    with one have "length (filter (for_pair u b) (tbl_reading_progress D)) = 1"
      by linarith
    with reportProgress_existing [OF rp ex] show ?thesis by simp
  qed
  have B: "d' = D\<lparr>tbl_reading_progress := map ?f (tbl_reading_progress D)\<rparr>"
    if ex: "filter (for_pair u b) (tbl_reading_progress D) \<noteq> []" and tp: "0 < tp"
      and rp: "reportProgress rl strict now gen u b page (Some tp) D = Inr d'" for d'
  proof -
    let ?st = "report_update ?cp (Some tp) ?p now"
    from tp have cp: "0 \<le> ?cp" "?cp \<le> tp" by (simp_all add: clamp_def)
    note num = percent_facts(5) [OF tp cp]
    from reportProgress_existing_update [OF rp ex tp]
    have up: "update_reading_progress rl now (for_pair u b) ?st D = Inr d'"
      and vis: "\<exists>y \<in> set (tbl_reading_progress D). for_pair u b y \<and> permits rl SELECT y"
      by blast+
    from ex one obtain x where x: "filter (for_pair u b) (tbl_reading_progress D) = [x]"
      by (cases "filter (for_pair u b) (tbl_reading_progress D)") auto
    have same: "r = x" if "r \<in> set (tbl_reading_progress D)" "for_pair u b r" for r
    proof -
      from that have "r \<in> set (filter (for_pair u b) (tbl_reading_progress D))" by simp
      then show ?thesis unfolding x by simp
    qed
    from vis same have px: "permits rl SELECT x" by blast
    have "list_all2 (\<lambda>r r'. r' = ?f r) (tbl_reading_progress D) (tbl_reading_progress d')"
    proof (rule list.rel_mono_strong [OF update_reading_progress_effect [OF up]])
      fix r r'
      assume r: "r \<in> set (tbl_reading_progress D)"
        and e: "if for_pair u b r \<and> permits rl SELECT r \<and> permits rl UPDATE r
                then \<exists>p. numeric_5_2 (progress (?st r)) = Inr p \<and>
                         r' = (?st r)\<lparr>updated_at := Some now, progress := p\<rparr>
                else r' = r"
      show "r' = ?f r"
      proof (cases "for_pair u b r")
        case True
        with same [OF r] px have "permits rl SELECT r \<and> permits rl UPDATE r"
          by (simp add: permits_SELECT_UPDATE del: permits.simps)
        with e True num show ?thesis
          by (auto simp: report_update_def)
      next
        case False
        with e show ?thesis by simp
      qed
    qed
    then have rows: "tbl_reading_progress d' = map ?f (tbl_reading_progress D)"
      by (rule list_all2_function)
    from up obtain rows where "d' = D\<lparr>tbl_reading_progress := rows\<rparr>"
      by (auto simp: update_reading_progress_def split: sum.splits)
    with rows show ?thesis by simp
  qed
  have C: "reportProgress (Subject (Some u)) strict now gen u b page (Some tp) D =
      Inr (D\<lparr>tbl_reading_progress := map ?f (tbl_reading_progress D)\<rparr>)"
    if ex: "filter (for_pair u b) (tbl_reading_progress D) \<noteq> []" and tp: "0 < tp" "tp \<le> 2147483647"
  proof -
    let ?st = "report_update ?cp (Some tp) ?p now"
    from tp have cp: "0 \<le> ?cp" "?cp \<le> tp" by (simp_all add: clamp_def)
    from ex obtain x where x: "x \<in> set (tbl_reading_progress D)" "for_pair u b x"
      by (auto simp: filter_empty_conv)
    with fk have "fk_ok (users D) (books D) x"
      by (simp add: inv_fk_def list_all_iff)
    with x(2) have ub: "u \<in> users D" "b \<in> books D"
      by (simp_all add: fk_ok_def for_pair_iff)
    have "filter (\<lambda>r. user_id r = Some u \<and> for_pair u b r) (tbl_reading_progress D) =
        filter (for_pair u b) (tbl_reading_progress D)"
      by (rule filter_cong) (auto simp: for_pair_iff)
    then have sel: "select_reading_progress (Subject (Some u)) (for_pair u b) D =
        Inr (filter (for_pair u b) (tbl_reading_progress D))"
      by (simp only: select_reading_progress_def select_rows_Subject)
    from ex obtain y ys where "filter (for_pair u b) (tbl_reading_progress D) = y # ys"
      by (cases "filter (for_pair u b) (tbl_reading_progress D)") auto
    with tp(1) have "reportProgress (Subject (Some u)) strict now gen u b page (Some tp) D =
        update_reading_progress (Subject (Some u)) now (for_pair u b) ?st D"
      by (simp add: reportProgress_def sel Let_def)
    also have "\<dots> = Inr (D\<lparr>tbl_reading_progress :=
                map (\<lambda>r. if for_pair u b r then (?st r)\<lparr>updated_at := Some now\<rparr> else r)
                  (tbl_reading_progress D)\<rparr>)"
      by (rule report_update_ok [OF tp cp ub un cols])
    also have "(\<lambda>r. if for_pair u b r then (?st r)\<lparr>updated_at := Some now\<rparr> else r) = ?f"
      by (simp add: fun_eq_iff report_update_def)
    finally show ?thesis .
  qed
  from one A B C show ?thesis unfolding D_def by blast
qed

theorem one_progress_row_per_user_book_witness:
  "filter (for_pair 1 1) (tbl_reading_progress (reports [first_report] (run two_readers empty_db))) \<noteq> [] \<and>
   map current_page (tbl_reading_progress (reports [first_report] (run two_readers empty_db))) = [Some 50] \<and>
   reportProgress (Subject (Some 1)) False 7 11 1 1 60 (Some 200)
     (reports [first_report] (run two_readers empty_db)) = Inr reported_again \<and>
   map id_col (tbl_reading_progress reported_again) =
     map id_col (tbl_reading_progress (reports [first_report] (run two_readers empty_db))) \<and>
   length (filter (for_pair 1 1) (tbl_reading_progress reported_again)) = 1 \<and>
   map current_page (tbl_reading_progress reported_again) = [Some 60] \<and>
   map progress (tbl_reading_progress reported_again) = [Some 30] \<and>
   map created_at (tbl_reading_progress reported_again) = [Some 5] \<and>
   map updated_at (tbl_reading_progress reported_again) = [Some 7]"
proof -
  note T = one_progress_row_per_user_book [where u = 1 and b = 1 and rs = "[first_report]"
      and ss = two_readers and rl = "Subject (Some 1)" and strict = False and now = 7 and gen = 11
      and page = 60 and pages = "Some 200" and tp = 200]
  have e: "filter (for_pair 1 1) (tbl_reading_progress (reports [first_report] (run two_readers empty_db))) \<noteq> []"
    unfolding reported_eq by (simp add: reported_def for_pair_iff)
  have c: "map current_page (tbl_reading_progress (reports [first_report] (run two_readers empty_db))) = [Some 50]"
    unfolding reported_eq by (simp add: reported_def)
  have v: "clamp 60 0 200 = 60" "percent 60 200 = 30"
    by code_simp+
  have pos: "(0::int) < 200" and le: "(200::int) \<le> 2147483647" by simp_all
  note C = T [THEN conjunct2, THEN conjunct2, THEN mp, OF e, THEN mp, OF pos, THEN conjunct2,
      THEN mp, OF le]
  have r: "reportProgress (Subject (Some 1)) False 7 11 1 1 60 (Some 200)
     (reports [first_report] (run two_readers empty_db)) = Inr reported_again"
    unfolding C unfolding v reported_eq
    by (simp add: reported_def reported_again_def for_pair_iff)
  note A = T [THEN conjunct2, THEN conjunct1, THEN spec, THEN mp, OF r, THEN mp, OF e]
  have i: "map id_col (tbl_reading_progress reported_again) =
     map id_col (tbl_reading_progress (reports [first_report] (run two_readers empty_db))) \<and>
   length (filter (for_pair 1 1) (tbl_reading_progress reported_again)) = 1"
    by (rule A)
  have a: "map current_page (tbl_reading_progress reported_again) = [Some 60]"
    "map progress (tbl_reading_progress reported_again) = [Some 30]"
    "map created_at (tbl_reading_progress reported_again) = [Some 5]"
    "map updated_at (tbl_reading_progress reported_again) = [Some 7]"
    by (simp_all add: reported_again_def)
  from e c r i a show ?thesis by (intro conjI) simp_all
qed

end
